theory Spec2Isabelle
  imports Main "HOL-Library.AList" "HOL-Library.Multiset"
begin

section \<open>Values, records and errors\<close>

text \<open>
  The values that cross the data layer: identifiers (strings and numbers), records (plain
  objects, kept as the list of their own properties in insertion order) and
  \<open>undefined\<close>. A number that is a value (\<open>Num n\<close>) is an integer that a double holds
  exactly. Strings are sequences of ASCII characters.
\<close>

datatype jsval = Undefined | Num int | Str string | Obj "(string \<times> jsval) list"

type_synonym obj = "(string \<times> jsval) list"

text \<open>
  The result of an arithmetic operation is a double: an integer, an infinity or \<open>NaN\<close>
  (the operations below never produce a fraction).
\<close>

datatype number = Fin int | PosInf | NegInf | NaN

text \<open>
  Every \<open>throw\<close> is a value: \<open>TypeError\<close> is raised by the language itself (a property
  read on \<open>undefined\<close>, a call of a missing method) and by the store for a transaction mode
  it does not offer; \<open>DataError\<close>, \<open>InvalidAccessError\<close>, \<open>InvalidStateError\<close>,
  \<open>TransactionInactiveError\<close> and \<open>ReadOnlyError\<close> are raised by the durable store,
  \<open>ValidationError\<close> by a table's validator, and \<open>Thrown\<close> by a caller-supplied
  transaction body.
\<close>

datatype error =
    TypeError | DataError | InvalidAccessError | InvalidStateError
  | TransactionInactiveError | ReadOnlyError | ValidationError string | Thrown string

text \<open>\<open>o[k]\<close> on a record: the property's value, \<open>undefined\<close> when the record has none.\<close>

definition field_of :: "obj \<Rightarrow> string \<Rightarrow> jsval" where
  "field_of fs k = (case map_of fs k of None \<Rightarrow> Undefined | Some v \<Rightarrow> v)"

text \<open>
  \<open>a.id\<close> on any value: reading a property of \<open>undefined\<close> throws, a string or a number
  has no such property, an object answers with \<open>field_of\<close>.
\<close>

fun get_prop :: "jsval \<Rightarrow> string \<Rightarrow> error + jsval" where
  "get_prop Undefined k = Inl TypeError"
| "get_prop (Num n) k = Inr Undefined"
| "get_prop (Str s) k = Inr Undefined"
| "get_prop (Obj fs) k = Inr (field_of fs k)"

text \<open>\<open>typeof a === 'object' && k in a\<close>.\<close>

fun object_with :: "string \<Rightarrow> jsval \<Rightarrow> bool" where
  "object_with k (Obj fs) = (map_of fs k \<noteq> None)"
| "object_with k v = False"

text \<open>\<open>item[property] = value\<close>, and the spread \<open>{...value, id: x}\<close>: an existing
  property keeps its place, a new one is appended.\<close>

definition assign :: "string \<Rightarrow> jsval \<Rightarrow> obj \<Rightarrow> obj" where
  "assign k v fs = AList.update k v fs"

text \<open>\<open>a === b\<close>. Two objects are equal only when they are the same reference; the
  objects compared here are properties of different records, hence never are.\<close>

fun strict_eq :: "jsval \<Rightarrow> jsval \<Rightarrow> bool" where
  "strict_eq Undefined Undefined = True"
| "strict_eq (Num x) (Num y) = (x = y)"
| "strict_eq (Str s) (Str t) = (s = t)"
| "strict_eq a b = False"

section \<open>Identifier ordering\<close>

text \<open>
  Doubles. \<open>nearest_double n\<close> is the natural number with at most 53 significant bits
  that is nearest to \<open>n\<close>, the even one of two that are equally near (every \<open>n\<close> below
  \<open>2^53\<close> is its own nearest double); \<open>to_number i\<close> is the double nearest to the
  integer \<open>i\<close>, an infinity from \<open>2^1024\<close> on. The difference of two doubles is the
  double nearest to the exact difference; the difference of two equal infinities is
  \<open>NaN\<close>.
\<close>

fun bit_len :: "nat \<Rightarrow> nat" where
  "bit_len n = (if n = 0 then 0 else Suc (bit_len (n div 2)))"

declare bit_len.simps [simp del]

definition nearest_double :: "nat \<Rightarrow> nat" where
  "nearest_double n =
     (let e = bit_len n - 53; q = n div 2 ^ e; r = n mod 2 ^ e
      in if 2 * r < 2 ^ e \<or> (2 * r = 2 ^ e \<and> even q) then q * 2 ^ e else (q + 1) * 2 ^ e)"

definition to_number :: "int \<Rightarrow> number" where
  "to_number i =
     (let m = nearest_double (nat \<bar>i\<bar>)
      in if 2 ^ 1024 \<le> m then (if i < 0 then NegInf else PosInf)
         else Fin (if i < 0 then - int m else int m))"

fun minus_number :: "number \<Rightarrow> number \<Rightarrow> number" where
  "minus_number NaN b = NaN"
| "minus_number a NaN = NaN"
| "minus_number (Fin x) (Fin y) = to_number (x - y)"
| "minus_number (Fin x) PosInf = NegInf"
| "minus_number (Fin x) NegInf = PosInf"
| "minus_number PosInf PosInf = NaN"
| "minus_number PosInf b = PosInf"
| "minus_number NegInf NegInf = NaN"
| "minus_number NegInf b = NegInf"

text \<open>
  \<open>/^\d+$/.test(s)\<close>, and \<open>Number(s)\<close> on a string of decimal digits: the double
  nearest to the number the digits spell (\<open>"9007199254740993"\<close> reads
  \<open>9007199254740992\<close>, a string of 310 nines reads \<open>Infinity\<close>). This is how the
  engines round; beyond twenty significant digits the language would also allow them the
  double next to the nearest.
\<close>

definition is_digit :: "char \<Rightarrow> bool" where
  "is_digit c = (48 \<le> (of_char c :: nat) \<and> (of_char c :: nat) \<le> 57)"

definition digits_only :: "string \<Rightarrow> bool" where
  "digits_only s = (s \<noteq> [] \<and> list_all is_digit s)"

definition decimal :: "string \<Rightarrow> nat" where
  "decimal s = foldl (\<lambda>n c. 10 * n + (of_char c - 48)) 0 s"

definition Number :: "string \<Rightarrow> number" where
  "Number s = to_number (int (decimal s))"

text \<open>
  Lines 268 to 274 of \<open>idComparator\<close>, reached once neither argument is an object with an
  \<open>id\<close>. The collation \<open>lc s t\<close> stands for the platform's \<open>s.localeCompare(t)\<close>; its
  argument is converted to a string first (\<open>undefined\<close> reads \<open>"undefined"\<close>, an object
  \<open>"[object Object]"\<close>, neither of which is made of digits). A receiver that is not a
  string has no \<open>localeCompare\<close> method.
\<close>

fun compare_primitive :: "(string \<Rightarrow> string \<Rightarrow> int) \<Rightarrow> jsval \<Rightarrow> jsval \<Rightarrow> error + number" where
  "compare_primitive lc (Num x) (Num y) = Inr (to_number (x - y))"
| "compare_primitive lc (Num x) b = Inr (Fin (- 1))"
| "compare_primitive lc a (Num y) = Inr (Fin 1)"
| "compare_primitive lc (Str s) (Str t) =
     (if digits_only s \<and> digits_only t then Inr (minus_number (Number s) (Number t))
      else Inr (Fin (lc s t)))"
| "compare_primitive lc (Str s) Undefined = Inr (Fin (lc s ''undefined''))"
| "compare_primitive lc (Str s) (Obj fs) = Inr (Fin (lc s ''[object Object]''))"
| "compare_primitive lc Undefined b = Inl TypeError"
| "compare_primitive lc (Obj fs) b = Inl TypeError"

text \<open>
  \<open>idComparator\<close>, lines 262 to 275. Both of its first two lines recurse on
  \<open>(a.id, b.id)\<close>, whichever argument was found to be a record.
\<close>

function idComparator :: "(string \<Rightarrow> string \<Rightarrow> int) \<Rightarrow> jsval \<Rightarrow> jsval \<Rightarrow> error + number" where
  "idComparator lc a b =
     (if object_with ''id'' a then
        (case get_prop a ''id'' of Inl e \<Rightarrow> Inl e | Inr ai \<Rightarrow>
           (case get_prop b ''id'' of Inl e \<Rightarrow> Inl e | Inr bi \<Rightarrow> idComparator lc ai bi))
      else if object_with ''id'' b then
        (case get_prop a ''id'' of Inl e \<Rightarrow> Inl e | Inr ai \<Rightarrow>
           (case get_prop b ''id'' of Inl e \<Rightarrow> Inl e | Inr bi \<Rightarrow> idComparator lc ai bi))
      else compare_primitive lc a b)"
  by pat_completeness auto
termination
proof (relation "measure (\<lambda>(lc, a, b). size a + size b)")
  show "wf (measure (\<lambda>(lc, a, b). size a + size b))" by simp
next
  have field: "size v < size (Obj fs)" if "map_of fs k = Some v" for fs :: obj and k v
    using that by (induction fs) (auto split: if_splits)
  have le: "size v \<le> size a" if "get_prop a k = Inr v" for a k v
    using that by (cases a) (auto simp: field_of_def dest: field split: option.splits)
  have less: "size v < size a" if "object_with k a" and "get_prop a k = Inr v" for a k v
    using that by (cases a) (auto simp: field_of_def dest: field split: option.splits)
  {
    fix lc :: "string \<Rightarrow> string \<Rightarrow> int" and a b ai bi
    assume "object_with ''id'' a" "get_prop a ''id'' = Inr ai" "get_prop b ''id'' = Inr bi"
    then show "((lc, ai, bi), (lc, a, b)) \<in> measure (\<lambda>(lc, a, b). size a + size b)"
      using less[of "''id''" a ai] le[of b "''id''" bi] by simp
  }
  {
    fix lc :: "string \<Rightarrow> string \<Rightarrow> int" and a b ai bi
    assume "object_with ''id'' b" "get_prop a ''id'' = Inr ai" "get_prop b ''id'' = Inr bi"
    then show "((lc, ai, bi), (lc, a, b)) \<in> measure (\<lambda>(lc, a, b). size a + size b)"
      using less[of "''id''" b bi] le[of a "''id''" ai] by simp
  }
qed

declare idComparator.simps [simp del]

text \<open>
  \<open>Array.prototype.sort(cmp)\<close>: a stable sort that stops at the first comparison that
  throws and then leaves the array as it was. It reads a result \<open>NaN\<close> of \<open>cmp\<close> as zero,
  and only the sign of any other; \<open>nonpositive c\<close> says that the result \<open>c\<close> does not
  ask for the first argument to come later. Whenever \<open>cmp\<close> is consistent on the elements
  the language fixes the outcome, and it is the one computed here; for an inconsistent
  \<open>cmp\<close> the language leaves the order to the engine.
\<close>

fun sign_of :: "number \<Rightarrow> int" where
  "sign_of (Fin c) = sgn c"
| "sign_of PosInf = 1"
| "sign_of NegInf = - 1"
| "sign_of NaN = 0"

definition nonpositive :: "number \<Rightarrow> bool" where
  "nonpositive c = (sign_of c \<le> 0)"

fun insert_by :: "('a \<Rightarrow> 'a \<Rightarrow> error + number) \<Rightarrow> 'a \<Rightarrow> 'a list \<Rightarrow> error + 'a list" where
  "insert_by cmp x [] = Inr [x]"
| "insert_by cmp x (y # ys) =
     (case cmp x y of
        Inl e \<Rightarrow> Inl e
      | Inr c \<Rightarrow>
          if nonpositive c then Inr (x # y # ys)
          else (case insert_by cmp x ys of Inl e \<Rightarrow> Inl e | Inr zs \<Rightarrow> Inr (y # zs)))"

fun sort_by :: "('a \<Rightarrow> 'a \<Rightarrow> error + number) \<Rightarrow> 'a list \<Rightarrow> error + 'a list" where
  "sort_by cmp [] = Inr []"
| "sort_by cmp (x # xs) =
     (case sort_by cmp xs of Inl e \<Rightarrow> Inl e | Inr ys \<Rightarrow> insert_by cmp x ys)"

text \<open>The comparator as \<open>sort\<close> applies it to records.\<close>

definition compare_records :: "(string \<Rightarrow> string \<Rightarrow> int) \<Rightarrow> obj \<Rightarrow> obj \<Rightarrow> error + number" where
  "compare_records lc a b = idComparator lc (Obj a) (Obj b)"

section \<open>Generated identifiers\<close>

text \<open>
  \<open>generateId\<close>, lines 51 to 53. \<open>rnd36\<close> is the string \<open>Math.random().toString(36)\<close>:
  \<open>"0"\<close> for the number zero, otherwise \<open>"0."\<close> followed by as many base-36 digits as the
  engine needs to tell the number from its neighbours (\<open>0.5\<close> reads \<open>"0.i"\<close>).
  \<open>slice i j\<close> is \<open>String.prototype.slice\<close> for \<open>0 \<le> i \<le> j\<close>.
\<close>

definition upper_letters :: string where
  "upper_letters = ''ABCDEFGHIJKLMNOPQRSTUVWXYZ''"

definition lower_letters :: string where
  "lower_letters = ''abcdefghijklmnopqrstuvwxyz''"

definition toLowerCase_char :: "char \<Rightarrow> char" where
  "toLowerCase_char c =
     (case map_of (zip upper_letters lower_letters) c of None \<Rightarrow> c | Some l \<Rightarrow> l)"

definition slice :: "nat \<Rightarrow> nat \<Rightarrow> string \<Rightarrow> string" where
  "slice i j s = take (j - i) (drop i s)"

definition generateId :: "string \<Rightarrow> string \<Rightarrow> string" where
  "generateId table rnd36 = map toLowerCase_char (slice 0 1 table) @ slice 2 9 rnd36"

definition is_lower :: "char \<Rightarrow> bool" where
  "is_lower c = (c \<in> set lower_letters)"

definition is_upper :: "char \<Rightarrow> bool" where
  "is_upper c = (c \<in> set upper_letters)"

definition is_base36 :: "char \<Rightarrow> bool" where
  "is_base36 c = (is_digit c \<or> is_lower c)"

text \<open>The pattern \<open>/^[a-z][0-9a-z]{7}$/\<close>, and \<open>/^w[0-9a-z]{7}$/\<close> for a given first letter.\<close>

fun matches_id :: "string \<Rightarrow> bool" where
  "matches_id [] = False"
| "matches_id (c # cs) = (is_lower c \<and> length cs = 7 \<and> list_all is_base36 cs)"

fun matches_id_of :: "char \<Rightarrow> string \<Rightarrow> bool" where
  "matches_id_of w [] = False"
| "matches_id_of w (c # cs) = (c = w \<and> length cs = 7 \<and> list_all is_base36 cs)"

section \<open>The durable store\<close>

text \<open>
  The store is the browser's IndexedDB, reached through the \<open>idb\<close> library; the code
  creates one object store per table with the key path \<open>id\<close> (\<open>openDatabase\<close>, lines
  358 to 385; every table's first index is \<open>id\<close>). What follows is the store's behaviour
  as the code relies on it. A key is a number or a string; numbers sort before strings,
  strings by their code units. The store keeps its records in key order, which is the
  order \<open>getAll\<close> returns them in. \<open>put\<close> files a record under its \<open>id\<close>, replacing the
  record that was there, and refuses (\<open>DataError\<close>) a record whose \<open>id\<close> is not a key.
\<close>

datatype key = KNum int | KStr string

fun key_of :: "jsval \<Rightarrow> key option" where
  "key_of (Num n) = Some (KNum n)"
| "key_of (Str s) = Some (KStr s)"
| "key_of v = None"

fun val_of_key :: "key \<Rightarrow> jsval" where
  "val_of_key (KNum n) = Num n"
| "val_of_key (KStr s) = Str s"

fun str_less :: "string \<Rightarrow> string \<Rightarrow> bool" where
  "str_less [] [] = False"
| "str_less [] (y # ys) = True"
| "str_less (x # xs) [] = False"
| "str_less (x # xs) (y # ys) =
     ((of_char x :: nat) < of_char y \<or> (x = y \<and> str_less xs ys))"

fun key_less :: "key \<Rightarrow> key \<Rightarrow> bool" where
  "key_less (KNum x) (KNum y) = (x < y)"
| "key_less (KNum x) (KStr t) = True"
| "key_less (KStr s) (KNum y) = False"
| "key_less (KStr s) (KStr t) = str_less s t"

type_synonym store = "(key \<times> obj) list"

fun put_at :: "key \<Rightarrow> obj \<Rightarrow> store \<Rightarrow> store" where
  "put_at k v [] = [(k, v)]"
| "put_at k v ((k', v') # rest) =
     (if k = k' then (k, v) # rest
      else if key_less k k' then (k, v) # (k', v') # rest
      else (k', v') # put_at k v rest)"

definition store_put :: "obj \<Rightarrow> store \<Rightarrow> error + key \<times> store" where
  "store_put v st =
     (case key_of (field_of v ''id'') of
        None \<Rightarrow> Inl DataError
      | Some k \<Rightarrow> Inr (k, put_at k v st))"

definition store_get :: "key \<Rightarrow> store \<Rightarrow> obj option" where
  "store_get k st = map_of st k"

definition store_delete :: "key \<Rightarrow> store \<Rightarrow> store" where
  "store_delete k st = filter (\<lambda>e. fst e \<noteq> k) st"

definition store_getAll :: "store \<Rightarrow> obj list" where
  "store_getAll st = map snd st"

section \<open>Tables and state\<close>

datatype tableName = Image | ImageFile | Observation | Metadata | Protocol | Settings

fun table_name :: "tableName \<Rightarrow> string" where
  "table_name Image = ''Image''"
| "table_name ImageFile = ''ImageFile''"
| "table_name Observation = ''Observation''"
| "table_name Metadata = ''Metadata''"
| "table_name Protocol = ''Protocol''"
| "table_name Settings = ''Settings''"

definition NO_REACTIVE_STATE_TABLES :: "tableName list" where
  "NO_REACTIVE_STATE_TABLES = [ImageFile]"

definition isReactiveTable :: "tableName \<Rightarrow> bool" where
  "isReactiveTable name = list_all (\<lambda>n. n \<noteq> name) NO_REACTIVE_STATE_TABLES"

datatype txmode = ReadOnly | ReadWrite | VersionChange

record handle =
  tx_id :: string
  tx_tables :: "tableName list"
  tx_mode :: txmode

text \<open>
  The history of the transaction wrapper's effects, in the order they happen: a handle
  opened on the store, \<open>commit()\<close> called on a handle, a table's mirror replaced by its
  listing.
\<close>

datatype event = TxOpen handle | TxCommit string | MirrorRefresh tableName

text \<open>
  The state: the durable stores (\<open>db\<close>), the mirrors (\<open>_tablesState\<close>), the handles that
  are open and active (\<open>active\<close>, by their identifiers) and the history. The store
  applies the requests made through a handle as they come. A handle stays active while
  its owner does nothing but wait for the handle's own requests; once the owner waits for
  anything else the store finishes the handle by itself, keeping what was written through
  it. Only an \<open>abort()\<close> would undo the writes of a handle, and the code calls none.

  A validator is a table's \<open>assert\<close>: it takes a record and returns the validated record
  or throws.
\<close>

record state =
  db :: "tableName \<Rightarrow> store"
  tablesState :: "tableName \<Rightarrow> obj list"
  active :: "string list"
  trace :: "event list"

type_synonym validator = "tableName \<Rightarrow> obj \<Rightarrow> error + obj"

type_synonym collation = "string \<Rightarrow> string \<Rightarrow> int"

section \<open>Table access\<close>

text \<open>\<open>values.map(f)\<close> with an \<open>f\<close> that may throw.\<close>

fun map_result :: "('a \<Rightarrow> error + 'b) \<Rightarrow> 'a list \<Rightarrow> error + 'b list" where
  "map_result f [] = Inr []"
| "map_result f (x # xs) =
     (case f x of
        Inl e \<Rightarrow> Inl e
      | Inr y \<Rightarrow> (case map_result f xs of Inl e \<Rightarrow> Inl e | Inr ys \<Rightarrow> Inr (y # ys)))"

text \<open>\<open>arr.findIndex(p)\<close>: \<open>None\<close> is the answer \<open>-1\<close>.\<close>

fun findIndex :: "('a \<Rightarrow> bool) \<Rightarrow> 'a list \<Rightarrow> nat option" where
  "findIndex p [] = None"
| "findIndex p (x # xs) =
     (if p x then Some 0 else (case findIndex p xs of None \<Rightarrow> None | Some i \<Rightarrow> Some (Suc i)))"

text \<open>\<open>set\<close>, lines 192 to 201: the validator's output is dropped, the value as given is
  stored.\<close>

definition set_tbl :: "validator \<Rightarrow> tableName \<Rightarrow> obj \<Rightarrow> state \<Rightarrow> (error + key) \<times> state" where
  "set_tbl V tableName v s =
     (case V tableName v of
        Inl e \<Rightarrow> (Inl e, s)
      | Inr out \<Rightarrow>
          (case store_put v (db s tableName) of
             Inl e \<Rightarrow> (Inl e, s)
           | Inr (k, st) \<Rightarrow> (Inr k, s\<lparr>db := (db s)(tableName := st)\<rparr>)))"

text \<open>\<open>clear\<close>, lines 207 to 214.\<close>

definition clear_tbl :: "tableName \<Rightarrow> state \<Rightarrow> (error + unit) \<times> state" where
  "clear_tbl table s = (Inr (), s\<lparr>db := (db s)(table := [])\<rparr>)"

text \<open>\<open>get\<close>, lines 223 to 232. A stored record is an object, hence truthy; a missing
  one is \<open>undefined\<close>.\<close>

definition get_tbl :: "validator \<Rightarrow> tableName \<Rightarrow> key \<Rightarrow> state \<Rightarrow> (error + jsval) \<times> state" where
  "get_tbl V tableName k s =
     (case store_get k (db s tableName) of
        None \<Rightarrow> (Inr Undefined, s)
      | Some v \<Rightarrow>
          (case V tableName v of
             Inl e \<Rightarrow> (Inl e, s)
           | Inr out \<Rightarrow> (Inr (Obj out), s)))"

text \<open>\<open>list\<close>, lines 240 to 252. It reads and never writes.\<close>

definition list_tbl :: "validator \<Rightarrow> collation \<Rightarrow> tableName \<Rightarrow> state \<Rightarrow> error + obj list" where
  "list_tbl V lc tableName s =
     (case map_result (V tableName) (store_getAll (db s tableName)) of
        Inl e \<Rightarrow> Inl e
      | Inr outs \<Rightarrow> sort_by (compare_records lc) outs)"

text \<open>\<open>drop\<close>, lines 284 to 296: after the deletion it lists the table, for its log line.\<close>

definition drop_tbl :: "validator \<Rightarrow> collation \<Rightarrow> tableName \<Rightarrow> key \<Rightarrow> state \<Rightarrow> (error + unit) \<times> state" where
  "drop_tbl V lc table k s =
     (let s1 = s\<lparr>db := (db s)(table := store_delete k (db s table))\<rparr>
      in case list_tbl V lc table s1 of
           Inl e \<Rightarrow> (Inl e, s1)
         | Inr xs \<Rightarrow> (Inr (), s1))"

section \<open>The reactive mirror\<close>

text \<open>The methods of \<open>wrangler(table)\<close>, lines 60 to 184.\<close>

definition set_mirror :: "tableName \<Rightarrow> obj list \<Rightarrow> state \<Rightarrow> state" where
  "set_mirror table xs s = s\<lparr>tablesState := (tablesState s)(table := xs)\<rparr>"

definition wrangler_refresh :: "validator \<Rightarrow> collation \<Rightarrow> tableName \<Rightarrow> state \<Rightarrow> (error + unit) \<times> state" where
  "wrangler_refresh V lc table s =
     (case list_tbl V lc table s of
        Inl e \<Rightarrow> (Inl e, s)
      | Inr xs \<Rightarrow> (Inr (), (set_mirror table xs s)\<lparr>trace := trace s @ [MirrorRefresh table]\<rparr>))"

definition wrangler_get :: "validator \<Rightarrow> tableName \<Rightarrow> key \<Rightarrow> state \<Rightarrow> (error + jsval) \<times> state" where
  "wrangler_get V table k s = get_tbl V table k s"

definition wrangler_set :: "validator \<Rightarrow> collation \<Rightarrow> tableName \<Rightarrow> obj \<Rightarrow> state \<Rightarrow> (error + obj) \<times> state" where
  "wrangler_set V lc table v s =
     (case set_tbl V table v s of
        (Inl e, s1) \<Rightarrow> (Inl e, s1)
      | (Inr k, s1) \<Rightarrow>
          (case V table v of
             Inl e \<Rightarrow> (Inl e, s1)
           | Inr output \<Rightarrow>
               (case findIndex (\<lambda>item. strict_eq (field_of item ''id'') (field_of v ''id''))
                       (tablesState s1 table) of
                  Some index \<Rightarrow> (Inr output, set_mirror table ((tablesState s1 table)[index := output]) s1)
                | None \<Rightarrow>
                    (let pushed = tablesState s1 table @ [output]
                     in case sort_by (compare_records lc) pushed of
                          Inl e \<Rightarrow> (Inl e, set_mirror table pushed s1)
                        | Inr arranged \<Rightarrow> (Inr output, set_mirror table arranged s1)))))"

definition raw_get :: "tableName \<Rightarrow> key \<Rightarrow> state \<Rightarrow> obj option" where
  "raw_get table k s = store_get k (db s table)"

definition raw_set :: "tableName \<Rightarrow> obj \<Rightarrow> state \<Rightarrow> (error + key) \<times> state" where
  "raw_set table v s =
     (case store_put v (db s table) of
        Inl e \<Rightarrow> (Inl e, s)
      | Inr (k, st) \<Rightarrow> (Inr k, s\<lparr>db := (db s)(table := st)\<rparr>))"

definition wrangler_update ::
  "validator \<Rightarrow> collation \<Rightarrow> tableName \<Rightarrow> key \<Rightarrow> string \<Rightarrow> jsval \<Rightarrow> state \<Rightarrow> (error + bool) \<times> state" where
  "wrangler_update V lc table k property v s =
     (case raw_get table k s of
        None \<Rightarrow> (Inr False, s)
      | Some item0 \<Rightarrow>
          (let item = assign property v item0
           in case set_tbl V table item s of
                (Inl e, s1) \<Rightarrow> (Inl e, s1)
              | (Inr k', s1) \<Rightarrow>
                  (case findIndex (\<lambda>it. strict_eq (field_of it ''id'') (val_of_key k))
                          (tablesState s1 table) of
                     None \<Rightarrow>
                       (case list_tbl V lc table s1 of
                          Inl e \<Rightarrow> (Inl e, s1)
                        | Inr xs \<Rightarrow> (Inr True, set_mirror table xs s1))
                   | Some index \<Rightarrow>
                       (case V table item of
                          Inl e \<Rightarrow> (Inl e, s1)
                        | Inr output \<Rightarrow>
                            (Inr True, set_mirror table ((tablesState s1 table)[index := output]) s1)))))"

definition wrangler_add ::
  "validator \<Rightarrow> collation \<Rightarrow> tableName \<Rightarrow> obj \<Rightarrow> string \<Rightarrow> state \<Rightarrow> (error + obj) \<times> state" where
  "wrangler_add V lc table v rnd36 s =
     wrangler_set V lc table (assign ''id'' (Str (generateId (table_name table) rnd36)) v) s"

definition wrangler_clear :: "tableName \<Rightarrow> state \<Rightarrow> (error + unit) \<times> state" where
  "wrangler_clear table s =
     (case clear_tbl table s of
        (Inl e, s1) \<Rightarrow> (Inl e, s1)
      | (Inr u, s1) \<Rightarrow> (Inr (), set_mirror table [] s1))"

text \<open>
  \<open>remove\<close>, lines 138 to 148, for an argument that is a key (not a key range). The
  listing is fetched when the index is not \<open>-1\<close>; in the other branch the index is
  \<open>-1\<close>, and \<open>delete arr[-1]\<close> removes a property no array has, so every element stays.
\<close>

definition wrangler_remove :: "validator \<Rightarrow> collation \<Rightarrow> tableName \<Rightarrow> key \<Rightarrow> state \<Rightarrow> (error + unit) \<times> state" where
  "wrangler_remove V lc table k s =
     (case drop_tbl V lc table k s of
        (Inl e, s1) \<Rightarrow> (Inl e, s1)
      | (Inr u, s1) \<Rightarrow>
          (case findIndex (\<lambda>item. strict_eq (field_of item ''id'') (val_of_key k))
                  (tablesState s1 table) of
             Some index \<Rightarrow>
               (case list_tbl V lc table s1 of
                  Inl e \<Rightarrow> (Inl e, s1)
                | Inr xs \<Rightarrow> (Inr (), set_mirror table xs s1))
           | None \<Rightarrow> (Inr (), s1)))"

section \<open>The transaction wrapper\<close>

text \<open>
  \<open>openTransaction\<close>, lines 325 to 356. \<open>txid\<close> is the identifier \<open>nanoid(8)\<close> hands out.
  \<open>db.transaction(tableNames, mode)\<close> refuses a transaction over no table
  (\<open>InvalidAccessError\<close>) and then a mode other than \<open>readonly\<close> and \<open>readwrite\<close>
  (\<open>TypeError\<close>); the handle it returns is active. \<open>commit()\<close> on a handle that is no
  longer active throws \<open>InvalidStateError\<close>; on an active handle it ends the handle at
  once, where the store would otherwise end it when its owner stops using it (what was
  written through the handle is kept either way). A body is any function of the handle and
  the state that returns or throws.
\<close>

type_synonym body = "handle \<Rightarrow> state \<Rightarrow> (error + unit) \<times> state"

fun refresh_all :: "validator \<Rightarrow> collation \<Rightarrow> tableName list \<Rightarrow> state \<Rightarrow> (error + unit) \<times> state" where
  "refresh_all V lc [] s = (Inr (), s)"
| "refresh_all V lc (table # rest) s =
     (case wrangler_refresh V lc table s of
        (Inl e, s1) \<Rightarrow> (Inl e, s1)
      | (Inr u, s1) \<Rightarrow> refresh_all V lc rest s1)"

definition new_handle :: "string \<Rightarrow> tableName list \<Rightarrow> txmode option \<Rightarrow> handle" where
  "new_handle txid tableNames mode =
     \<lparr>tx_id = txid, tx_tables = tableNames,
      tx_mode = (case mode of None \<Rightarrow> ReadWrite | Some m \<Rightarrow> m)\<rparr>"

definition opened :: "handle \<Rightarrow> state \<Rightarrow> state" where
  "opened tx s = s\<lparr>active := tx_id tx # active s, trace := trace s @ [TxOpen tx]\<rparr>"

definition finished :: "handle \<Rightarrow> state \<Rightarrow> state" where
  "finished tx s = s\<lparr>active := removeAll (tx_id tx) (active s)\<rparr>"

definition commit :: "handle \<Rightarrow> state \<Rightarrow> (error + unit) \<times> state" where
  "commit tx s =
     (if tx_id tx \<in> set (active s)
      then (Inr (), (finished tx s)\<lparr>trace := trace s @ [TxCommit (tx_id tx)]\<rparr>)
      else (Inl InvalidStateError, s))"

definition openTransaction ::
  "validator \<Rightarrow> collation \<Rightarrow> string \<Rightarrow> tableName list \<Rightarrow> txmode option \<Rightarrow> handle option \<Rightarrow> body
     \<Rightarrow> state \<Rightarrow> (error + unit) \<times> state" where
  "openTransaction V lc txid tableNames mode tx actions s =
     (case tx of
        Some t \<Rightarrow> actions t s
      | None \<Rightarrow>
          (if tableNames = [] then (Inl InvalidAccessError, s)
           else if mode = Some VersionChange then (Inl TypeError, s)
           else
             (let newTx = new_handle txid tableNames mode
              in case actions newTx (opened newTx s) of
                   (Inl e, s1) \<Rightarrow> (Inl e, s1)
                 | (Inr u, s1) \<Rightarrow>
                     (case commit newTx s1 of
                        (Inl e, s2) \<Rightarrow> (Inl e, s2)
                      | (Inr u', s2) \<Rightarrow>
                          refresh_all V lc (filter isReactiveTable tableNames) s2))))"

text \<open>
  Calls of the wrapper nested in one another, each handing the handle it was given to the
  next: \<open>calls\<close> lists the arguments of the inner calls from the outside in, \<open>leaf\<close> is
  the innermost body.
\<close>

fun nested_calls ::
  "validator \<Rightarrow> collation \<Rightarrow> (string \<times> tableName list \<times> txmode option) list \<Rightarrow> body \<Rightarrow> body" where
  "nested_calls V lc [] leaf = leaf"
| "nested_calls V lc ((txid, tableNames, mode) # calls) leaf =
     (\<lambda>tx. openTransaction V lc txid tableNames mode (Some tx) (nested_calls V lc calls leaf))"

text \<open>The number of commits in a history.\<close>

fun is_commit :: "event \<Rightarrow> bool" where
  "is_commit (TxCommit t) = True"
| "is_commit ev = False"

definition commits :: "event list \<Rightarrow> nat" where
  "commits evs = length (filter is_commit evs)"

text \<open>\<open>do\<close>, lines 154 to 162: the body receives the table's object store, that is the
  handle together with the table.\<close>

definition wrangler_do ::
  "validator \<Rightarrow> collation \<Rightarrow> string \<Rightarrow> tableName \<Rightarrow> (handle \<times> tableName \<Rightarrow> state \<Rightarrow> (error + unit) \<times> state)
     \<Rightarrow> state \<Rightarrow> (error + unit) \<times> state" where
  "wrangler_do V lc txid table actions s =
     openTransaction V lc txid [table] None None (\<lambda>tx. actions (tx, table)) s"

section \<open>Sequences of mirror operations\<close>

text \<open>
  What a body may do with an object store of its handle: \<open>put\<close>, \<open>delete\<close> and
  \<open>clear\<close>, none of which validates, each awaited before the next; and wait for something
  that is not a request of the handle (a timer, a request of another transaction), during
  which the store finishes the handle. A request through a handle that is no longer active
  throws \<open>TransactionInactiveError\<close>, a write through a read-only handle
  \<open>ReadOnlyError\<close>, and a \<open>put\<close> of a record whose \<open>id\<close> is not a key \<open>DataError\<close>;
  a request that throws makes the body throw.
\<close>

datatype storeAction = SPut obj | SDelete key | SClear | SAwait

fun store_action :: "storeAction \<Rightarrow> store \<Rightarrow> error + store" where
  "store_action (SPut v) st = (case store_put v st of Inl e \<Rightarrow> Inl e | Inr (k, st') \<Rightarrow> Inr st')"
| "store_action (SDelete k) st = Inr (store_delete k st)"
| "store_action SClear st = Inr []"
| "store_action SAwait st = Inr st"

fun store_actions :: "storeAction list \<Rightarrow> handle \<times> tableName \<Rightarrow> state \<Rightarrow> (error + unit) \<times> state" where
  "store_actions [] h s = (Inr (), s)"
| "store_actions (a # rest) (tx, table) s =
     (if a = SAwait then store_actions rest (tx, table) (finished tx s)
      else if tx_id tx \<notin> set (active s) then (Inl TransactionInactiveError, s)
      else if tx_mode tx = ReadOnly then (Inl ReadOnlyError, s)
      else (case store_action a (db s table) of
              Inl e \<Rightarrow> (Inl e, s)
            | Inr st' \<Rightarrow> store_actions rest (tx, table) (s\<lparr>db := (db s)(table := st')\<rparr>)))"

text \<open>
  The operations of one table's wrangler, each run to completion before the next starts;
  a sequence stops at the first operation that throws.
\<close>

datatype op =
    OpSet obj | OpAdd obj string | OpUpdate key string jsval | OpRemove key
  | OpClear | OpRefresh | OpDo string "storeAction list"

fun discard :: "(error + 'a) \<times> state \<Rightarrow> (error + unit) \<times> state" where
  "discard (Inl e, s) = (Inl e, s)"
| "discard (Inr x, s) = (Inr (), s)"

fun apply_op :: "validator \<Rightarrow> collation \<Rightarrow> tableName \<Rightarrow> op \<Rightarrow> state \<Rightarrow> (error + unit) \<times> state" where
  "apply_op V lc table (OpSet v) s = discard (wrangler_set V lc table v s)"
| "apply_op V lc table (OpAdd v rnd36) s = discard (wrangler_add V lc table v rnd36 s)"
| "apply_op V lc table (OpUpdate k property v) s = discard (wrangler_update V lc table k property v s)"
| "apply_op V lc table (OpRemove k) s = wrangler_remove V lc table k s"
| "apply_op V lc table OpClear s = wrangler_clear table s"
| "apply_op V lc table OpRefresh s = wrangler_refresh V lc table s"
| "apply_op V lc table (OpDo txid acts) s = wrangler_do V lc txid table (store_actions acts) s"

fun run_ops :: "validator \<Rightarrow> collation \<Rightarrow> tableName \<Rightarrow> op list \<Rightarrow> state \<Rightarrow> (error + unit) \<times> state" where
  "run_ops V lc table [] s = (Inr (), s)"
| "run_ops V lc table (x # xs) s =
     (case apply_op V lc table x s of
        (Inl e, s1) \<Rightarrow> (Inl e, s1)
      | (Inr u, s1) \<Rightarrow> run_ops V lc table xs s1)"

text \<open>
  The mirror of a table is in step with the store when it is the table's listing. A store
  is well formed when its records are in strictly increasing key order and each is filed
  under its own \<open>id\<close>. A validator keeps identifiers when its output carries the \<open>id\<close> of
  its input.
\<close>

definition synced :: "validator \<Rightarrow> collation \<Rightarrow> tableName \<Rightarrow> state \<Rightarrow> bool" where
  "synced V lc table s = (list_tbl V lc table s = Inr (tablesState s table))"

definition wf_store :: "store \<Rightarrow> bool" where
  "wf_store st = (sorted_wrt key_less (map fst st)
      \<and> list_all (\<lambda>e. key_of (field_of (snd e) ''id'') = Some (fst e)) st)"

definition keeps_id :: "validator \<Rightarrow> tableName \<Rightarrow> bool" where
  "keeps_id V table = (\<forall>v out. V table v = Inr out \<longrightarrow> field_of out ''id'' = field_of v ''id'')"

text \<open>
  The order the comparator puts two identifiers in, as \<open>sort\<close> reads it:
  \<open>order_sign\<close> is the sign of its result (zero for \<open>NaN\<close>, \<open>None\<close> when it throws),
  \<open>before lc a b\<close> says that it does not put \<open>a\<close> after \<open>b\<close>, and \<open>ties lc a b\<close>
  that it reads them as equal. The comparator is consistent on a list of identifiers (the
  condition under which the outcome of \<open>sort\<close> does not depend on the engine) when it
  never throws on them, the order of \<open>b\<close> and \<open>a\<close> is the opposite of the order of \<open>a\<close>
  and \<open>b\<close>, and \<open>before\<close> is transitive.
\<close>

definition order_sign :: "collation \<Rightarrow> jsval \<Rightarrow> jsval \<Rightarrow> int option" where
  "order_sign lc a b = (case idComparator lc a b of Inl e \<Rightarrow> None | Inr c \<Rightarrow> Some (sign_of c))"

definition before :: "collation \<Rightarrow> jsval \<Rightarrow> jsval \<Rightarrow> bool" where
  "before lc a b = (case order_sign lc a b of None \<Rightarrow> False | Some x \<Rightarrow> x \<le> 0)"

definition ties :: "collation \<Rightarrow> jsval \<Rightarrow> jsval \<Rightarrow> bool" where
  "ties lc a b = (order_sign lc a b = Some 0)"

definition opposite :: "collation \<Rightarrow> jsval \<Rightarrow> jsval \<Rightarrow> bool" where
  "opposite lc a b =
     (case order_sign lc a b of
        None \<Rightarrow> False
      | Some x \<Rightarrow> (case order_sign lc b a of None \<Rightarrow> False | Some y \<Rightarrow> y = - x))"

definition consistent_on :: "collation \<Rightarrow> jsval list \<Rightarrow> bool" where
  "consistent_on lc ids =
     (list_all (\<lambda>a. list_all (\<lambda>b. opposite lc a b) ids) ids
      \<and> list_all (\<lambda>a. list_all (\<lambda>b. list_all (\<lambda>c.
            \<not> (before lc a b \<and> before lc b c) \<or> before lc a c) ids) ids) ids)"

text \<open>The key order of the store, on identifiers.\<close>

definition key_before :: "jsval \<Rightarrow> jsval \<Rightarrow> bool" where
  "key_before a b =
     (case key_of a of
        None \<Rightarrow> False
      | Some ka \<Rightarrow> (case key_of b of None \<Rightarrow> False | Some kb \<Rightarrow> key_less ka kb))"

text \<open>
  A comparator on the elements themselves: \<open>le_by cmp a b\<close> says that \<open>cmp\<close> does not
  put \<open>a\<close> after \<open>b\<close>. When \<open>cmp\<close> throws on no two elements of a list, sorting the
  list is the insertion sort \<open>isort\<close> by \<open>le_by cmp\<close>.
\<close>

definition le_by :: "('a \<Rightarrow> 'a \<Rightarrow> error + number) \<Rightarrow> 'a \<Rightarrow> 'a \<Rightarrow> bool" where
  "le_by cmp a b = (case cmp a b of Inl e \<Rightarrow> False | Inr c \<Rightarrow> nonpositive c)"

fun ins :: "('a \<Rightarrow> 'a \<Rightarrow> bool) \<Rightarrow> 'a \<Rightarrow> 'a list \<Rightarrow> 'a list" where
  "ins le x [] = [x]"
| "ins le x (y # ys) = (if le x y then x # y # ys else y # ins le x ys)"

definition isort :: "('a \<Rightarrow> 'a \<Rightarrow> bool) \<Rightarrow> 'a list \<Rightarrow> 'a list" where
  "isort le xs = foldr (ins le) xs []"

text \<open>A relation that orders any two elements of a set one way or the other, transitively.\<close>

definition weak_order_on :: "('a \<Rightarrow> 'a \<Rightarrow> bool) \<Rightarrow> 'a set \<Rightarrow> bool" where
  "weak_order_on le S =
     ((\<forall>a\<in>S. \<forall>b\<in>S. le a b \<or> le b a)
      \<and> (\<forall>a\<in>S. \<forall>b\<in>S. \<forall>c\<in>S. le a b \<and> le b c \<longrightarrow> le a c))"

text \<open>
  The operations the invariant below covers. An \<open>update\<close> is of a field other than the
  key field, or gives the key field the value it has. A \<open>set\<close> or \<open>add\<close> either
  replaces a record the mirror holds, or inserts a record with a new identifier on which,
  together with those of the mirror, the comparator is consistent, and such that every
  identifier of the mirror that the comparator reads as equal to the new one comes before
  it in the key order of the store.
\<close>

definition inserts_in_order :: "collation \<Rightarrow> tableName \<Rightarrow> obj \<Rightarrow> state \<Rightarrow> bool" where
  "inserts_in_order lc table v s =
     (findIndex (\<lambda>item. strict_eq (field_of item ''id'') (field_of v ''id'')) (tablesState s table) \<noteq> None
      \<or> (consistent_on lc (field_of v ''id'' # map (\<lambda>item. field_of item ''id'') (tablesState s table))
          \<and> list_all (\<lambda>item. \<not> ties lc (field_of v ''id'') (field_of item ''id'')
                          \<or> key_before (field_of item ''id'') (field_of v ''id''))
               (tablesState s table)))"

fun admissible :: "collation \<Rightarrow> tableName \<Rightarrow> op \<Rightarrow> state \<Rightarrow> bool" where
  "admissible lc table (OpSet v) s = inserts_in_order lc table v s"
| "admissible lc table (OpAdd v rnd36) s =
     inserts_in_order lc table (assign ''id'' (Str (generateId (table_name table) rnd36)) v) s"
| "admissible lc table (OpUpdate k property v) s = (property \<noteq> ''id'' \<or> v = val_of_key k)"
| "admissible lc table x s = True"


section \<open>Sample validators, collation and states\<close>

text \<open>
  Concrete validators, a collation and states on which the theorems below are evaluated:
  a validator that accepts every record as it is, one that asks for a string \<open>label\<close>,
  one that rejects everything, the comparison of strings by code units, the state of a
  fresh database, and a state whose \<open>Image\<close> store holds two records that the mirror has
  not loaded yet (as on start-up before \<open>initialize\<close>, or after \<open>raw.set\<close>).
\<close>

definition accept_all :: validator where
  "accept_all T v = Inr v"

definition labelled :: validator where
  "labelled T v =
     (case field_of v ''label'' of Str l \<Rightarrow> Inr v | _ \<Rightarrow> Inl (ValidationError ''label''))"

definition reject_all :: validator where
  "reject_all T v = Inl (ValidationError ''rejected'')"

definition code_unit_compare :: collation where
  "code_unit_compare s t = (if str_less s t then - 1 else if str_less t s then 1 else 0)"

definition empty_state :: state where
  "empty_state = \<lparr>db = (\<lambda>T. []), tablesState = (\<lambda>T. []), active = [], trace = []\<rparr>"

definition drifted_state :: state where
  "drifted_state =
     \<lparr>db = (\<lambda>T. if T = Image
                 then [(KStr ''a'', [(''id'', Str ''a'')]), (KStr ''b'', [(''id'', Str ''b'')])]
                 else []),
      tablesState = (\<lambda>T. []), active = [], trace = []\<rparr>"

definition observed_state :: state where
  "observed_state =
     \<lparr>db = (\<lambda>T. if T = Observation
                 then [(KStr ''o'', [(''id'', Str ''o''), (''label'', Str ''x'')])]
                 else []),
      tablesState = (\<lambda>T. if T = Observation
                 then [[(''id'', Str ''o''), (''label'', Str ''x'')]]
                 else []),
      active = [], trace = []\<rparr>"


text \<open>
  A state in step whose one \<open>Image\<close> record has an identifier beyond the integers that
  doubles tell apart.
\<close>

definition rounded_state :: state where
  "rounded_state =
     \<lparr>db = (\<lambda>T. if T = Image
                 then [(KStr ''9007199254740993'', [(''id'', Str ''9007199254740993'')])] else []),
      tablesState = (\<lambda>T. if T = Image then [[(''id'', Str ''9007199254740993'')]] else []),
      active = [], trace = []\<rparr>"



text \<open>
  Transaction bodies. One does nothing. One puts an \<open>Image\<close> record with no \<open>label\<close>
  and a well-formed \<open>Observation\<close> through the handle's object stores, which do not
  validate. One waits for a timer. One stores an \<open>Image\<close> record with the wrangler's
  \<open>set\<close> (a request that is not the handle's, so the handle finishes meanwhile) and
  then throws.
\<close>

definition noop_body :: body where
  "noop_body tx s = (Inr (), s)"

definition unvalidated_body :: body where
  "unvalidated_body tx s =
     (case store_actions [SPut [(''id'', Str ''1'')]] (tx, Image) s of
        (Inl e, s1) \<Rightarrow> (Inl e, s1)
      | (Inr u, s1) \<Rightarrow>
          store_actions [SPut [(''id'', Str ''o''), (''label'', Str ''x'')]] (tx, Observation) s1)"

definition waiting_body :: body where
  "waiting_body tx s = store_actions [SAwait] (tx, Image) s"


section \<open>Reading and writing through validation\<close>

lemma map_of_put_at: "map_of (put_at k v st) k = Some v"
  by (induction st) auto

text \<open>
  Claim C10. When the store holds no record at the key, \<open>get\<close> answers \<open>undefined\<close> and
  leaves the state alone, whatever the table's validator is: the validator is not
  consulted, so even one that rejects every value cannot make the call throw.
\<close>

theorem get_missing_is_undefined:
  assumes "store_get k (db s tableName) = None"
  shows "get_tbl V tableName k s = (Inr Undefined, s)
     \<and> wrangler_get V tableName k s = (Inr Undefined, s)"
  using assms by (simp add: get_tbl_def wrangler_get_def)

theorem get_missing_is_undefined_witness:
  "store_get (KStr ''a'') (db empty_state Image) = None \<and>
   get_tbl reject_all Image (KStr ''a'') empty_state = (Inr Undefined, empty_state) \<and>
   wrangler_get reject_all Image (KStr ''a'') empty_state = (Inr Undefined, empty_state)"
proof -
  have h: "store_get (KStr ''a'') (db empty_state Image) = None"
    by (simp add: store_get_def empty_state_def)
  show ?thesis using h get_missing_is_undefined[OF h, of reject_all] by simp
qed

text \<open>
  Claim C4. A record \<open>r\<close> that the table's validator accepts, with output \<open>out\<close>, and
  whose \<open>id\<close> is a key \<open>k\<close>: \<open>set\<close> stores it under \<open>k\<close>, and \<open>get\<close> of \<open>k\<close> in the
  resulting state returns \<open>out\<close>.
\<close>

theorem set_then_get:
  assumes "V tableName r = Inr out" and "key_of (field_of r ''id'') = Some k"
  shows "fst (set_tbl V tableName r s) = Inr k
     \<and> get_tbl V tableName k (snd (set_tbl V tableName r s))
         = (Inr (Obj out), snd (set_tbl V tableName r s))"
  using assms
  by (simp add: set_tbl_def get_tbl_def store_put_def store_get_def map_of_put_at)

theorem set_then_get_witness:
  "accept_all Image [(''id'', Str ''7''), (''filename'', Str ''a.png'')]
     = Inr [(''id'', Str ''7''), (''filename'', Str ''a.png'')]
   \<and> key_of (field_of [(''id'', Str ''7''), (''filename'', Str ''a.png'')] ''id'') = Some (KStr ''7'')
   \<and> fst (set_tbl accept_all Image [(''id'', Str ''7''), (''filename'', Str ''a.png'')] empty_state)
        = Inr (KStr ''7'')
   \<and> get_tbl accept_all Image (KStr ''7'')
         (snd (set_tbl accept_all Image [(''id'', Str ''7''), (''filename'', Str ''a.png'')] empty_state))
        = (Inr (Obj [(''id'', Str ''7''), (''filename'', Str ''a.png'')]),
           snd (set_tbl accept_all Image [(''id'', Str ''7''), (''filename'', Str ''a.png'')] empty_state))"
proof -
  let ?r = "[(''id'', Str ''7''), (''filename'', Str ''a.png'')]"
  have h1: "accept_all Image ?r = Inr ?r" by (simp add: accept_all_def)
  have h2: "key_of (field_of ?r ''id'') = Some (KStr ''7'')" by (simp add: field_of_def)
  show ?thesis
    using h1 h2 set_then_get[of accept_all Image ?r ?r "KStr ''7''" empty_state] by simp
qed

section \<open>The comparator\<close>

text \<open>Integers below \<open>2^53\<close> in magnitude are doubles; beyond, digits are lost.\<close>

lemma bit_len_le: "n < 2 ^ k \<Longrightarrow> bit_len n \<le> k"
proof (induction k arbitrary: n)
  case 0
  then show ?case by (simp add: bit_len.simps)
next
  case (Suc k)
  show ?case
  proof (cases "n = 0")
    case True
    then show ?thesis by (simp add: bit_len.simps)
  next
    case False
    have "n div 2 < 2 ^ k" using Suc.prems by simp
    then have "bit_len (n div 2) \<le> k" by (rule Suc.IH)
    then show ?thesis using False by (subst bit_len.simps) simp
  qed
qed

lemma nearest_double_small: "n < 2 ^ 53 \<Longrightarrow> nearest_double n = n"
  using bit_len_le[of n 53] by (simp add: nearest_double_def)

lemma to_number_small: "\<bar>i\<bar> < 2 ^ 53 \<Longrightarrow> to_number i = Fin i"
proof -
  assume a: "\<bar>i\<bar> < 2 ^ 53"
  then have "nat \<bar>i\<bar> < 2 ^ 53" by (simp add: nat_less_iff)
  then have n: "nearest_double (nat \<bar>i\<bar>) = nat \<bar>i\<bar>" by (rule nearest_double_small)
  have "nat \<bar>i\<bar> < 2 ^ 53" using a by (simp add: nat_less_iff)
  also have "(2::nat) ^ 53 < 2 ^ 1024" by simp
  finally have "\<not> 2 ^ 1024 \<le> nat \<bar>i\<bar>" by simp
  then show ?thesis using n by (auto simp: to_number_def Let_def)
qed

lemma Number_rounds:
  "Number ''9007199254740992'' = Fin 9007199254740992"
  "Number ''9007199254740993'' = Fin 9007199254740992"
  "Number ''9007199254740994'' = Fin 9007199254740994"
  by (simp_all add: Number_def decimal_def to_number_def nearest_double_def bit_len.simps)

text \<open>Two records that both carry an \<open>id\<close> are compared by their \<open>id\<close>s.\<close>

lemma idComparator_records:
  assumes "map_of a ''id'' \<noteq> None"
  shows "idComparator lc (Obj a) (Obj b) = idComparator lc (field_of a ''id'') (field_of b ''id'')"
  using assms by (subst idComparator.simps) simp

text \<open>Two identifiers are compared by the four rules, in their order.\<close>

lemma idComparator_numbers: "idComparator lc (Num x) (Num y) = Inr (to_number (x - y))"
  by (subst idComparator.simps) simp

lemma idComparator_number_first:
  "idComparator lc (Num x) (Str t) = Inr (Fin (- 1))" "idComparator lc (Str s) (Num y) = Inr (Fin 1)"
  by (subst idComparator.simps, simp)+

lemma idComparator_strings:
  "idComparator lc (Str s) (Str t) =
     (if digits_only s \<and> digits_only t then Inr (minus_number (Number s) (Number t))
      else Inr (Fin (lc s t)))"
  by (subst idComparator.simps) simp

lemma idComparator_examples:
  "idComparator lc (Str ''2'') (Str ''10'') = Inr (Fin (- 8))"
  "idComparator lc (Str ''2'') (Str ''b'') = Inr (Fin (lc ''2'' ''b''))"
  "idComparator lc (Str ''b'') (Str ''a'') = Inr (Fin (lc ''b'' ''a''))"
  by (simp_all add: idComparator_strings digits_only_def is_digit_def Number_def decimal_def
      to_number_small)

lemma idComparator_beyond_doubles:
  "idComparator lc (Str ''9007199254740993'') (Str ''9007199254740992'') = Inr (Fin 0)"
  by (simp add: idComparator_strings digits_only_def is_digit_def Number_rounds to_number_small)

text \<open>
  Claim C3. An identifier compared with a record is not compared with the record's
  \<open>id\<close>. With the record on the right, line 266 reads \<open>a.id\<close> of the identifier \<open>a\<close>,
  which is \<open>undefined\<close>, and the comparison ends in a \<open>TypeError\<close>; with the record on the
  left, line 264 reads \<open>b.id\<close> of the identifier \<open>b\<close>, and the record's \<open>id\<close> is collated
  against the text \<open>"undefined"\<close>.
\<close>

theorem idComparator_identifier_with_record:
  "idComparator lc (Str ''2'') (Obj [(''id'', Str ''10'')]) = Inl TypeError
   \<and> idComparator lc (Obj [(''id'', Str ''20'')]) (Str ''10'') = Inr (Fin (lc ''20'' ''undefined''))"
  by (simp add: idComparator.simps field_of_def)

section \<open>Removal\<close>

text \<open>
  Claim C2. \<open>remove\<close> of a key that the mirror does not hold deletes the record from the
  store and leaves the mirror as it was: here the store keeps the record \<open>b\<close>, the listing
  of the table is \<open>[b]\<close>, and the mirror is still empty.
\<close>

theorem remove_absent_from_mirror_no_refresh:
  "wrangler_remove accept_all lc Image (KStr ''a'') drifted_state =
     (Inr (), drifted_state\<lparr>db := (db drifted_state)(Image := [(KStr ''b'', [(''id'', Str ''b'')])])\<rparr>)
   \<and> tablesState (snd (wrangler_remove accept_all lc Image (KStr ''a'') drifted_state)) Image = []
   \<and> list_tbl accept_all lc Image (snd (wrangler_remove accept_all lc Image (KStr ''a'') drifted_state))
       = Inr [[(''id'', Str ''b'')]]"
  by (simp add: wrangler_remove_def drop_tbl_def list_tbl_def drifted_state_def store_delete_def
      store_getAll_def accept_all_def)

section \<open>Generated identifiers\<close>

lemma lower_iff_letter: "is_lower (toLowerCase_char c) \<longleftrightarrow> is_upper c \<or> is_lower c"
proof (cases "map_of (zip upper_letters lower_letters) c")
  case None
  have len: "length upper_letters = length lower_letters"
    by (simp add: upper_letters_def lower_letters_def)
  have "map fst (zip upper_letters lower_letters) = upper_letters"
    using len by (rule map_fst_zip)
  then have "fst ` set (zip upper_letters lower_letters) = set upper_letters"
    by (metis set_map)
  moreover have "c \<notin> fst ` set (zip upper_letters lower_letters)"
    using None by (simp only: map_of_eq_None_iff not_False_eq_True)
  ultimately have "c \<notin> set upper_letters" by simp
  then show ?thesis using None by (simp add: toLowerCase_char_def is_upper_def)
next
  case (Some l)
  then have "(c, l) \<in> set (zip upper_letters lower_letters)" by (rule map_of_SomeD)
  then have "c \<in> set upper_letters" "l \<in> set lower_letters"
    by (auto dest: set_zip_leftD set_zip_rightD)
  then show ?thesis using Some by (simp add: toLowerCase_char_def is_upper_def is_lower_def)
qed

text \<open>
  Claim C9, as stated, fails: when the random number is \<open>0.5\<close> its base-36 rendering is
  \<open>"0.i"\<close>, and the identifier generated for table \<open>Widget\<close> is \<open>"wi"\<close>.
\<close>

theorem generateId_short_counterexample:
  "generateId ''Widget'' ''0.i'' = ''wi'' \<and> \<not> matches_id (generateId ''Widget'' ''0.i'')
    \<and> \<not> matches_id_of CHR ''w'' (generateId ''Widget'' ''0.i'')"
  by (simp add: generateId_def slice_def toLowerCase_char_def upper_letters_def lower_letters_def)

text \<open>
  Claim C9, amended. For every table name and every rendering of the random number, the
  identifier is the table name's first character in lower case (nothing when the name is
  empty) followed by the characters 2 to 8 of the rendering, as many of the seven as the
  rendering has. It matches \<open>/^[a-z][0-9a-z]{7}$/\<close> exactly when the table name starts
  with a letter and the rendering has seven base-36 digits after \<open>"0."\<close>, and it matches
  the pattern with a given first letter \<open>w\<close> exactly when, moreover, \<open>w\<close> is the name's
  first character in lower case.
\<close>

theorem generateId_shape:
  "generateId table rnd36 = map toLowerCase_char (take 1 table) @ take 7 (drop 2 rnd36)
   \<and> length (generateId table rnd36) = min 1 (length table) + min 7 (length rnd36 - 2)
   \<and> (matches_id (generateId table rnd36) \<longleftrightarrow>
        table \<noteq> [] \<and> (is_upper (hd table) \<or> is_lower (hd table))
        \<and> 9 \<le> length rnd36 \<and> list_all is_base36 (take 7 (drop 2 rnd36)))
   \<and> (matches_id_of w (generateId table rnd36) \<longleftrightarrow>
        table \<noteq> [] \<and> toLowerCase_char (hd table) = w
        \<and> 9 \<le> length rnd36 \<and> list_all is_base36 (take 7 (drop 2 rnd36)))"
proof -
  have eq: "generateId table rnd36 = map toLowerCase_char (take 1 table) @ take 7 (drop 2 rnd36)"
    by (simp add: generateId_def slice_def)
  have len: "length (generateId table rnd36) = min 1 (length table) + min 7 (length rnd36 - 2)"
    unfolding eq by simp
  have l7: "length (take 7 (drop 2 rnd36)) = 7 \<longleftrightarrow> 9 \<le> length rnd36" by auto
  have m1: "matches_id (generateId table rnd36) \<longleftrightarrow>
        table \<noteq> [] \<and> (is_upper (hd table) \<or> is_lower (hd table))
        \<and> 9 \<le> length rnd36 \<and> list_all is_base36 (take 7 (drop 2 rnd36))"
  proof (cases table)
    case Nil
    show ?thesis
    proof (cases "take 7 (drop 2 rnd36)")
      case Nil
      then show ?thesis using \<open>table = []\<close> unfolding eq by simp
    next
      case (Cons d ds)
      have "length (d # ds) \<le> 7" unfolding Cons[symmetric] by simp
      then have "length ds \<noteq> 7" by simp
      then show ?thesis using \<open>table = []\<close> Cons unfolding eq by simp
    qed
  next
    case (Cons c rest)
    then show ?thesis unfolding eq using l7 by (simp add: lower_iff_letter)
  qed
  have m2: "matches_id_of w (generateId table rnd36) \<longleftrightarrow>
        table \<noteq> [] \<and> toLowerCase_char (hd table) = w
        \<and> 9 \<le> length rnd36 \<and> list_all is_base36 (take 7 (drop 2 rnd36))"
  proof (cases table)
    case Nil
    show ?thesis
    proof (cases "take 7 (drop 2 rnd36)")
      case Nil
      then show ?thesis using \<open>table = []\<close> unfolding eq by simp
    next
      case (Cons d ds)
      have "length (d # ds) \<le> 7" unfolding Cons[symmetric] by simp
      then have "length ds \<noteq> 7" by simp
      then show ?thesis using \<open>table = []\<close> Cons unfolding eq by simp
    qed
  next
    case (Cons c rest)
    then show ?thesis unfolding eq using l7 by auto
  qed
  show ?thesis using eq len m1 m2 by blast
qed

theorem generateId_shape_witness:
  "generateId ''Widget'' ''0.4fzyo82mvyr'' = ''w4fzyo82''
   \<and> length (generateId ''Widget'' ''0.4fzyo82mvyr'') = 8
   \<and> matches_id (generateId ''Widget'' ''0.4fzyo82mvyr'')
   \<and> matches_id_of CHR ''w'' (generateId ''Widget'' ''0.4fzyo82mvyr'')
   \<and> generateId ''Widget'' ''0.i'' = ''wi''
   \<and> \<not> matches_id (generateId ''Widget'' ''0.i'')"
proof -
  note T = generateId_shape[where table="''Widget''" and ?rnd36.0="''0.4fzyo82mvyr''" and w="CHR ''w''"]
  note U = generateId_shape[where table="''Widget''" and ?rnd36.0="''0.i''" and w="CHR ''w''"]
  have e1: "map toLowerCase_char (take 1 ''Widget'') = ''w''"
    by (simp add: toLowerCase_char_def upper_letters_def lower_letters_def)
  have e2: "take 7 (drop 2 ''0.4fzyo82mvyr'') = ''4fzyo82''" by simp
  have e3: "take 7 (drop 2 ''0.i'') = ''i''" by simp
  have h: "''Widget'' \<noteq> [] \<and> (is_upper (hd ''Widget'') \<or> is_lower (hd ''Widget''))
      \<and> toLowerCase_char (hd ''Widget'') = CHR ''w''
      \<and> 9 \<le> length ''0.4fzyo82mvyr'' \<and> list_all is_base36 (take 7 (drop 2 ''0.4fzyo82mvyr''))"
    by (simp add: is_upper_def is_base36_def is_digit_def is_lower_def toLowerCase_char_def
        upper_letters_def lower_letters_def)
  have n: "\<not> 9 \<le> length ''0.i''" by simp
  have a: "generateId ''Widget'' ''0.4fzyo82mvyr'' = ''w4fzyo82''" using T e1 e2 by simp
  have b: "length (generateId ''Widget'' ''0.4fzyo82mvyr'') = 8" using T by simp
  have c: "matches_id (generateId ''Widget'' ''0.4fzyo82mvyr'')" using T h by blast
  have d: "matches_id_of CHR ''w'' (generateId ''Widget'' ''0.4fzyo82mvyr'')" using T h by blast
  have e: "generateId ''Widget'' ''0.i'' = ''wi''" using U e1 e3 by simp
  have f: "\<not> matches_id (generateId ''Widget'' ''0.i'')" using U n by blast
  from a b c d e f show ?thesis by blast
qed

section \<open>Refreshing the mirrors\<close>

lemma list_tbl_cong: "db s' = db s \<Longrightarrow> list_tbl V lc T s' = list_tbl V lc T s"
  by (simp add: list_tbl_def)

lemma wrangler_refresh_Inr:
  assumes "wrangler_refresh V lc T s = (Inr u, s')"
  shows "\<exists>xs. list_tbl V lc T s = Inr xs
           \<and> s' = (set_mirror T xs s)\<lparr>trace := trace s @ [MirrorRefresh T]\<rparr>"
  using assms by (auto simp: wrangler_refresh_def split: sum.splits)

lemma wrangler_refresh_Inl:
  assumes "wrangler_refresh V lc T s = (Inl e, s')"
  shows "list_tbl V lc T s = Inl e \<and> s' = s"
  using assms by (auto simp: wrangler_refresh_def split: sum.splits)

lemma refresh_all_run:
  "\<exists>done rest. Ts = done @ rest
      \<and> db (snd (refresh_all V lc Ts s)) = db s
      \<and> active (snd (refresh_all V lc Ts s)) = active s
      \<and> trace (snd (refresh_all V lc Ts s)) = trace s @ map MirrorRefresh done
      \<and> (\<forall>T \<in> set done. list_tbl V lc T s = Inr (tablesState (snd (refresh_all V lc Ts s)) T))
      \<and> (\<forall>T. T \<notin> set done \<longrightarrow> tablesState (snd (refresh_all V lc Ts s)) T = tablesState s T)
      \<and> (case fst (refresh_all V lc Ts s) of
            Inr u \<Rightarrow> rest = []
          | Inl e \<Rightarrow> \<exists>T rest'. rest = T # rest' \<and> list_tbl V lc T s = Inl e)"
proof (induction Ts arbitrary: s)
  case Nil
  then show ?case by simp
next
  case (Cons T Ts)
  show ?case
  proof (cases "list_tbl V lc T s")
    case (Inl e)
    then have "refresh_all V lc (T # Ts) s = (Inl e, s)"
      by (simp add: wrangler_refresh_def)
    then show ?thesis using Inl
      by (intro exI[of _ "[]"] exI[of _ "T # Ts"]) simp
  next
    case (Inr xs)
    define s1 where "s1 = (set_mirror T xs s)\<lparr>trace := trace s @ [MirrorRefresh T]\<rparr>"
    have step: "refresh_all V lc (T # Ts) s = refresh_all V lc Ts s1"
      using Inr by (simp add: wrangler_refresh_def s1_def)
    have db1: "db s1 = db s" by (simp add: s1_def set_mirror_def)
    have ac1: "active s1 = active s" by (simp add: s1_def set_mirror_def)
    have l1: "\<And>T'. list_tbl V lc T' s1 = list_tbl V lc T' s"
      using db1 by (rule list_tbl_cong)
    from Cons.IH[of s1] obtain dn rest where
      IH: "Ts = dn @ rest"
        "db (snd (refresh_all V lc Ts s1)) = db s1"
        "trace (snd (refresh_all V lc Ts s1)) = trace s1 @ map MirrorRefresh dn"
        "\<forall>T' \<in> set dn. list_tbl V lc T' s1 = Inr (tablesState (snd (refresh_all V lc Ts s1)) T')"
        "\<forall>T'. T' \<notin> set dn \<longrightarrow> tablesState (snd (refresh_all V lc Ts s1)) T' = tablesState s1 T'"
        "(case fst (refresh_all V lc Ts s1) of
            Inr u \<Rightarrow> rest = []
          | Inl e \<Rightarrow> \<exists>T' rest'. rest = T' # rest' \<and> list_tbl V lc T' s1 = Inl e)"
        "active (snd (refresh_all V lc Ts s1)) = active s1"
      by blast
    have hd: "list_tbl V lc T s = Inr (tablesState (snd (refresh_all V lc Ts s1)) T)"
    proof (cases "T \<in> set dn")
      case True
      then show ?thesis using IH(4) l1 by auto
    next
      case False
      then have "tablesState (snd (refresh_all V lc Ts s1)) T = tablesState s1 T"
        using IH(5) by blast
      then show ?thesis using Inr by (simp add: s1_def set_mirror_def)
    qed
    have tr1: "trace s1 = trace s @ [MirrorRefresh T]" by (simp add: s1_def set_mirror_def)
    have ts1: "\<And>T'. T' \<noteq> T \<Longrightarrow> tablesState s1 T' = tablesState s T'"
      by (simp add: s1_def set_mirror_def)
    let ?s' = "snd (refresh_all V lc Ts s1)"
    have c1: "T # Ts = (T # dn) @ rest" using IH(1) by simp
    have c2: "db ?s' = db s" using IH(2) db1 by simp
    have c3: "trace ?s' = trace s @ map MirrorRefresh (T # dn)" using IH(3) tr1 by simp
    have c4: "\<forall>T' \<in> set (T # dn). list_tbl V lc T' s = Inr (tablesState ?s' T')"
      using IH(4) hd l1 by auto
    have c5: "\<forall>T'. T' \<notin> set (T # dn) \<longrightarrow> tablesState ?s' T' = tablesState s T'"
      using IH(5) ts1 by auto
    have c6: "(case fst (refresh_all V lc Ts s1) of
            Inr u \<Rightarrow> rest = []
          | Inl e \<Rightarrow> \<exists>T' rest'. rest = T' # rest' \<and> list_tbl V lc T' s = Inl e)"
      using IH(6) l1 by (auto split: sum.splits)
    have c7: "active ?s' = active s" using IH(7) ac1 by simp
    show ?thesis
      unfolding step using c1 c2 c3 c4 c5 c6 c7 by blast
  qed
qed

section \<open>The transaction wrapper\<close>

lemma nested_calls_leaf: "nested_calls V lc calls leaf tx s = leaf tx s"
  by (induction calls arbitrary: tx s) (auto simp: openTransaction_def)

lemma count_list_map_refresh: "count_list (map MirrorRefresh Ts) (MirrorRefresh T) = count_list Ts T"
  by (induction Ts) auto

lemma count_list_filter: "count_list (filter P xs) x = (if P x then count_list xs x else 0)"
  by (induction xs) auto

lemma commits_refreshes: "commits (map MirrorRefresh Ts) = 0"
  by (induction Ts) (auto simp: commits_def)

lemma new_handle_id: "tx_id (new_handle txid tableNames mode) = txid"
  by (simp add: new_handle_def)

text \<open>
  A call that opens its own handle returns only if the store accepted the mode, the body
  returned and left the handle active.
\<close>

lemma openTransaction_returns:
  assumes "fst (openTransaction V lc txid tableNames mode None actions s) = Inr u'"
    and "tableNames \<noteq> []"
    and "actions (new_handle txid tableNames mode) (opened (new_handle txid tableNames mode) s) = (Inr u, s1)"
  shows "mode \<noteq> Some VersionChange \<and> txid \<in> set (active s1)"
  using assms
  by (auto simp: openTransaction_def commit_def new_handle_id Let_def split: if_splits)

text \<open>
  A call that opens its own handle and whose body returns with the handle still active:
  the wrapper's result is that of refreshing the reactive tables, one after the other, in
  the state the body left with the handle committed. \<open>done\<close> are the tables refreshed,
  \<open>rest\<close> those that were not.
\<close>

lemma openTransaction_new_run:
  assumes "tableNames \<noteq> []" and "mode \<noteq> Some VersionChange"
    and "actions (new_handle txid tableNames mode) (opened (new_handle txid tableNames mode) s) = (Inr u, s1)"
    and "txid \<in> set (active s1)"
  shows "\<exists>done rest. filter isReactiveTable tableNames = done @ rest
      \<and> db (snd (openTransaction V lc txid tableNames mode None actions s)) = db s1
      \<and> active (snd (openTransaction V lc txid tableNames mode None actions s))
          = removeAll txid (active s1)
      \<and> trace (snd (openTransaction V lc txid tableNames mode None actions s))
          = trace s1 @ TxCommit txid # map MirrorRefresh done
      \<and> (\<forall>T \<in> set done. isReactiveTable T \<and> list_tbl V lc T s1
            = Inr (tablesState (snd (openTransaction V lc txid tableNames mode None actions s)) T))
      \<and> (\<forall>T. T \<notin> set done \<longrightarrow>
            tablesState (snd (openTransaction V lc txid tableNames mode None actions s)) T = tablesState s1 T)
      \<and> (case fst (openTransaction V lc txid tableNames mode None actions s) of
            Inr u \<Rightarrow> rest = []
          | Inl e \<Rightarrow> \<exists>T rest'. rest = T # rest' \<and> list_tbl V lc T s1 = Inl e)"
proof -
  define sc where "sc = s1\<lparr>active := removeAll txid (active s1), trace := trace s1 @ [TxCommit txid]\<rparr>"
  have cm: "commit (new_handle txid tableNames mode) s1 = (Inr (), sc)"
    using assms(4) by (simp add: commit_def finished_def new_handle_id sc_def)
  have run: "openTransaction V lc txid tableNames mode None actions s
      = refresh_all V lc (filter isReactiveTable tableNames) sc"
    using assms(1,2,3) cm by (simp add: openTransaction_def)
  have l: "\<And>T. list_tbl V lc T sc = list_tbl V lc T s1"
    by (rule list_tbl_cong) (simp add: sc_def)
  from refresh_all_run[of "filter isReactiveTable tableNames" V lc sc]
  obtain dn rest where R: "filter isReactiveTable tableNames = dn @ rest"
      "db (snd (refresh_all V lc (filter isReactiveTable tableNames) sc)) = db sc"
      "trace (snd (refresh_all V lc (filter isReactiveTable tableNames) sc)) = trace sc @ map MirrorRefresh dn"
      "\<forall>T \<in> set dn. list_tbl V lc T sc = Inr (tablesState (snd (refresh_all V lc (filter isReactiveTable tableNames) sc)) T)"
      "\<forall>T. T \<notin> set dn \<longrightarrow> tablesState (snd (refresh_all V lc (filter isReactiveTable tableNames) sc)) T = tablesState sc T"
      "(case fst (refresh_all V lc (filter isReactiveTable tableNames) sc) of
            Inr u \<Rightarrow> rest = []
          | Inl e \<Rightarrow> \<exists>T rest'. rest = T # rest' \<and> list_tbl V lc T sc = Inl e)"
      "active (snd (refresh_all V lc (filter isReactiveTable tableNames) sc)) = active sc"
    by blast
  have sub: "\<forall>T \<in> set dn. isReactiveTable T"
  proof
    fix T assume "T \<in> set dn"
    then have "T \<in> set (filter isReactiveTable tableNames)" using R(1) by simp
    then show "isReactiveTable T" by simp
  qed
  have c6: "(case fst (refresh_all V lc (filter isReactiveTable tableNames) sc) of
            Inr u \<Rightarrow> rest = []
          | Inl e \<Rightarrow> \<exists>T rest'. rest = T # rest' \<and> list_tbl V lc T s1 = Inl e)"
    using R(6) l by (auto split: sum.splits)
  let ?s' = "snd (refresh_all V lc (filter isReactiveTable tableNames) sc)"
  have c2: "db ?s' = db s1" using R(2) by (simp add: sc_def)
  have c3: "trace ?s' = trace s1 @ TxCommit txid # map MirrorRefresh dn"
    using R(3) by (simp add: sc_def)
  have c4: "\<forall>T \<in> set dn. isReactiveTable T \<and> list_tbl V lc T s1 = Inr (tablesState ?s' T)"
    using R(4) sub l by simp
  have c5: "\<forall>T. T \<notin> set dn \<longrightarrow> tablesState ?s' T = tablesState s1 T"
    using R(5) by (simp add: sc_def)
  have c7: "active ?s' = removeAll txid (active s1)" using R(7) by (simp add: sc_def)
  show ?thesis
    unfolding run using R(1) c2 c3 c4 c5 c6 c7 by blast
qed






text \<open>
  Claim C6, as stated, fails. The first body returns after putting, through the handle's
  object stores, an \<open>Image\<close> record that the validator rejects and an \<open>Observation\<close>
  record; the handle is committed, the refresh of \<open>Image\<close> throws, and the mirror of
  \<open>Observation\<close> is never refreshed: it stays empty although the table lists one record.
  The second body waits for a timer and returns: the handle has finished meanwhile,
  \<open>commit()\<close> throws, and no mirror is refreshed.
\<close>

theorem openTransaction_refresh_stops_counterexample:
  "openTransaction labelled code_unit_compare ''t1'' [Image, Observation] None None unvalidated_body empty_state
     = (Inl (ValidationError ''label''),
        \<lparr>db = (\<lambda>T. [])(Image := [(KStr ''1'', [(''id'', Str ''1'')])],
                        Observation := [(KStr ''o'', [(''id'', Str ''o''), (''label'', Str ''x'')])]),
         tablesState = (\<lambda>T. []), active = [],
         trace = [TxOpen (new_handle ''t1'' [Image, Observation] None), TxCommit ''t1'']\<rparr>)
   \<and> list_tbl labelled code_unit_compare Observation
        (snd (openTransaction labelled code_unit_compare ''t1'' [Image, Observation] None None
               unvalidated_body empty_state))
     = Inr [[(''id'', Str ''o''), (''label'', Str ''x'')]]
   \<and> openTransaction accept_all code_unit_compare ''t2'' [Image] None None waiting_body drifted_state
     = (Inl InvalidStateError, drifted_state\<lparr>trace := [TxOpen (new_handle ''t2'' [Image] None)]\<rparr>)
   \<and> tablesState (snd (openTransaction accept_all code_unit_compare ''t2'' [Image] None None
          waiting_body drifted_state)) Image
     = []
   \<and> list_tbl accept_all code_unit_compare Image
        (snd (openTransaction accept_all code_unit_compare ''t2'' [Image] None None
               waiting_body drifted_state))
     = Inr [[(''id'', Str ''a'')], [(''id'', Str ''b'')]]"
proof -
  have r1: "openTransaction labelled code_unit_compare ''t1'' [Image, Observation] None None unvalidated_body empty_state
     = (Inl (ValidationError ''label''),
        \<lparr>db = (\<lambda>T. [])(Image := [(KStr ''1'', [(''id'', Str ''1'')])],
                        Observation := [(KStr ''o'', [(''id'', Str ''o''), (''label'', Str ''x'')])]),
         tablesState = (\<lambda>T. []), active = [],
         trace = [TxOpen (new_handle ''t1'' [Image, Observation] None), TxCommit ''t1'']\<rparr>)"
    by (simp add: openTransaction_def opened_def finished_def commit_def new_handle_def
        unvalidated_body_def empty_state_def isReactiveTable_def
        NO_REACTIVE_STATE_TABLES_def wrangler_refresh_def list_tbl_def store_getAll_def set_mirror_def
        store_put_def field_of_def labelled_def)
  have r2: "openTransaction accept_all code_unit_compare ''t2'' [Image] None None waiting_body drifted_state
     = (Inl InvalidStateError, drifted_state\<lparr>trace := [TxOpen (new_handle ''t2'' [Image] None)]\<rparr>)"
    by (simp add: openTransaction_def opened_def finished_def commit_def new_handle_def
        waiting_body_def drifted_state_def)
  show ?thesis
    unfolding r1 r2
    by (simp add: list_tbl_def store_getAll_def labelled_def field_of_def accept_all_def
        drifted_state_def compare_records_def idComparator.simps digits_only_def is_digit_def
        code_unit_compare_def nonpositive_def)
qed

text \<open>
  Claim C6, amended. After a body that returns, \<open>commit()\<close> is called on the handle. If
  the handle is no longer active, the call throws \<open>InvalidStateError\<close>: that error is
  the wrapper's, and nothing is refreshed. Otherwise the handle is committed, and after
  the commit the reactive tables among \<open>tableNames\<close> are refreshed in their order, each
  to its listing, until a refresh throws: that error is the wrapper's, and the tables
  after it are not refreshed. When the wrapper returns, every reactive table among
  \<open>tableNames\<close> has been refreshed. A table that is not reactive is never refreshed, and
  the store is as the body left it.
\<close>

theorem openTransaction_commit_then_refresh:
  assumes "tableNames \<noteq> []" and "mode \<noteq> Some VersionChange"
    and "actions (new_handle txid tableNames mode) (opened (new_handle txid tableNames mode) s) = (Inr u, s1)"
  shows "(txid \<notin> set (active s1)
           \<longrightarrow> openTransaction V lc txid tableNames mode None actions s = (Inl InvalidStateError, s1))
     \<and> (txid \<in> set (active s1) \<longrightarrow>
         (\<exists>done rest. filter isReactiveTable tableNames = done @ rest
            \<and> db (snd (openTransaction V lc txid tableNames mode None actions s)) = db s1
            \<and> active (snd (openTransaction V lc txid tableNames mode None actions s))
                = removeAll txid (active s1)
            \<and> trace (snd (openTransaction V lc txid tableNames mode None actions s))
                = trace s1 @ TxCommit txid # map MirrorRefresh done
            \<and> (\<forall>T \<in> set done. isReactiveTable T \<and> list_tbl V lc T s1
                  = Inr (tablesState (snd (openTransaction V lc txid tableNames mode None actions s)) T))
            \<and> (\<forall>T. T \<notin> set done \<longrightarrow>
                  tablesState (snd (openTransaction V lc txid tableNames mode None actions s)) T
                    = tablesState s1 T)
            \<and> (case fst (openTransaction V lc txid tableNames mode None actions s) of
                  Inr u \<Rightarrow> rest = []
                | Inl e \<Rightarrow> \<exists>T rest'. rest = T # rest' \<and> list_tbl V lc T s1 = Inl e)))"
proof (intro conjI impI)
  assume "txid \<notin> set (active s1)"
  then show "openTransaction V lc txid tableNames mode None actions s = (Inl InvalidStateError, s1)"
    using assms by (simp add: openTransaction_def commit_def new_handle_id)
next
  assume "txid \<in> set (active s1)"
  with assms show "\<exists>done rest. filter isReactiveTable tableNames = done @ rest
            \<and> db (snd (openTransaction V lc txid tableNames mode None actions s)) = db s1
            \<and> active (snd (openTransaction V lc txid tableNames mode None actions s))
                = removeAll txid (active s1)
            \<and> trace (snd (openTransaction V lc txid tableNames mode None actions s))
                = trace s1 @ TxCommit txid # map MirrorRefresh done
            \<and> (\<forall>T \<in> set done. isReactiveTable T \<and> list_tbl V lc T s1
                  = Inr (tablesState (snd (openTransaction V lc txid tableNames mode None actions s)) T))
            \<and> (\<forall>T. T \<notin> set done \<longrightarrow>
                  tablesState (snd (openTransaction V lc txid tableNames mode None actions s)) T
                    = tablesState s1 T)
            \<and> (case fst (openTransaction V lc txid tableNames mode None actions s) of
                  Inr u \<Rightarrow> rest = []
                | Inl e \<Rightarrow> \<exists>T rest'. rest = T # rest' \<and> list_tbl V lc T s1 = Inl e)"
    by (rule openTransaction_new_run)
qed

theorem openTransaction_commit_then_refresh_witness:
  "[ImageFile, Image] \<noteq> [] \<and> (None :: txmode option) \<noteq> Some VersionChange
   \<and> noop_body (new_handle ''t1'' [ImageFile, Image] None)
        (opened (new_handle ''t1'' [ImageFile, Image] None) drifted_state)
      = (Inr (), opened (new_handle ''t1'' [ImageFile, Image] None) drifted_state)
   \<and> ''t1'' \<in> set (active (opened (new_handle ''t1'' [ImageFile, Image] None) drifted_state))
   \<and> openTransaction accept_all code_unit_compare ''t1'' [ImageFile, Image] None None noop_body drifted_state
      = (Inr (), drifted_state
           \<lparr>tablesState := (\<lambda>T. [])(Image := [[(''id'', Str ''a'')], [(''id'', Str ''b'')]]),
            trace := [TxOpen (new_handle ''t1'' [ImageFile, Image] None), TxCommit ''t1'', MirrorRefresh Image]\<rparr>)
   \<and> (\<exists>done rest. filter isReactiveTable [ImageFile, Image] = done @ rest
      \<and> trace (snd (openTransaction accept_all code_unit_compare ''t1'' [ImageFile, Image] None None noop_body drifted_state))
          = trace (opened (new_handle ''t1'' [ImageFile, Image] None) drifted_state)
              @ TxCommit ''t1'' # map MirrorRefresh done)
   \<and> [Image] \<noteq> []
   \<and> waiting_body (new_handle ''t2'' [Image] None) (opened (new_handle ''t2'' [Image] None) drifted_state)
      = (Inr (), drifted_state\<lparr>trace := [TxOpen (new_handle ''t2'' [Image] None)]\<rparr>)
   \<and> ''t2'' \<notin> set (active (drifted_state\<lparr>trace := [TxOpen (new_handle ''t2'' [Image] None)]\<rparr>))
   \<and> openTransaction accept_all code_unit_compare ''t2'' [Image] None None waiting_body drifted_state
      = (Inl InvalidStateError, drifted_state\<lparr>trace := [TxOpen (new_handle ''t2'' [Image] None)]\<rparr>)"
proof -
  let ?h = "new_handle ''t1'' [ImageFile, Image] None"
  let ?s1 = "opened ?h drifted_state"
  let ?s2 = "drifted_state\<lparr>trace := [TxOpen (new_handle ''t2'' [Image] None)]\<rparr>"
  have h1: "[ImageFile, Image] \<noteq> []" by simp
  have h0: "(None :: txmode option) \<noteq> Some VersionChange" by simp
  have h2: "noop_body ?h ?s1 = (Inr (), ?s1)" by (simp add: noop_body_def)
  have h3: "''t1'' \<in> set (active ?s1)" by (simp add: opened_def new_handle_def)
  have ev: "openTransaction accept_all code_unit_compare ''t1'' [ImageFile, Image] None None noop_body drifted_state
      = (Inr (), drifted_state
           \<lparr>tablesState := (\<lambda>T. [])(Image := [[(''id'', Str ''a'')], [(''id'', Str ''b'')]]),
            trace := [TxOpen ?h, TxCommit ''t1'', MirrorRefresh Image]\<rparr>)"
    by (simp add: openTransaction_def opened_def finished_def commit_def new_handle_def
      noop_body_def drifted_state_def isReactiveTable_def
      NO_REACTIVE_STATE_TABLES_def wrangler_refresh_def list_tbl_def store_getAll_def set_mirror_def
      accept_all_def compare_records_def idComparator.simps field_of_def digits_only_def is_digit_def
      code_unit_compare_def nonpositive_def)
  note T = openTransaction_commit_then_refresh[where tableNames="[ImageFile, Image]" and actions=noop_body
      and txid="''t1''" and mode=None and s=drifted_state and u="()" and ?s1.0="?s1"
      and V=accept_all and lc=code_unit_compare, OF h1 h0 h2]
  have c1: "\<exists>done rest. filter isReactiveTable [ImageFile, Image] = done @ rest
      \<and> trace (snd (openTransaction accept_all code_unit_compare ''t1'' [ImageFile, Image] None None noop_body drifted_state))
          = trace ?s1 @ TxCommit ''t1'' # map MirrorRefresh done"
    using T h3 by blast
  have g1: "[Image] \<noteq> []" by simp
  have g2: "waiting_body (new_handle ''t2'' [Image] None) (opened (new_handle ''t2'' [Image] None) drifted_state)
      = (Inr (), ?s2)"
    by (simp add: waiting_body_def opened_def finished_def new_handle_def drifted_state_def)
  have g3: "''t2'' \<notin> set (active ?s2)" by (simp add: drifted_state_def)
  note U = openTransaction_commit_then_refresh[where tableNames="[Image]" and actions=waiting_body
      and txid="''t2''" and mode=None and s=drifted_state and u="()" and ?s1.0="?s2"
      and V=accept_all and lc=code_unit_compare, OF g1 h0 g2]
  have c2: "openTransaction accept_all code_unit_compare ''t2'' [Image] None None waiting_body drifted_state
      = (Inl InvalidStateError, ?s2)"
    using U g3 by blast
  from h1 h0 h2 h3 ev c1 g1 g2 g3 c2 show ?thesis by blast
qed

text \<open>
  Claim C5, as stated, fails: a table named twice in the outermost call's \<open>tableNames\<close> is
  refreshed twice.
\<close>

theorem nested_transactions_duplicate_counterexample:
  "fst (openTransaction accept_all code_unit_compare ''t1'' [Image, Image] None None
          (nested_calls accept_all code_unit_compare [(''t2'', [Image], None)] noop_body) empty_state)
     = Inr ()
   \<and> trace (snd (openTransaction accept_all code_unit_compare ''t1'' [Image, Image] None None
          (nested_calls accept_all code_unit_compare [(''t2'', [Image], None)] noop_body) empty_state))
     = [TxOpen (new_handle ''t1'' [Image, Image] None), TxCommit ''t1'',
        MirrorRefresh Image, MirrorRefresh Image]
   \<and> count_list (trace (snd (openTransaction accept_all code_unit_compare ''t1'' [Image, Image] None None
          (nested_calls accept_all code_unit_compare [(''t2'', [Image], None)] noop_body) empty_state)))
        (MirrorRefresh Image) = 2"
  by (simp add: openTransaction_def opened_def finished_def commit_def new_handle_def
      noop_body_def empty_state_def isReactiveTable_def
      NO_REACTIVE_STATE_TABLES_def wrangler_refresh_def list_tbl_def store_getAll_def set_mirror_def)

text \<open>
  Claim C5, amended. A call given an ambient handle is the call of its body with that
  handle: it opens, commits and refreshes nothing. Hence, for calls nested in one another
  that share the handle of the outermost one, once the innermost body has returned and
  the outermost call returns, the history after the body is one commit followed by one
  refresh for each listing of a reactive table in the outermost call's \<open>tableNames\<close>: one
  refresh per table when no table is listed twice.
\<close>

theorem nested_transactions_commit_once:
  "openTransaction V lc txid' tableNames' mode' (Some t) actions s = actions t s
   \<and> (tableNames \<noteq> []
        \<and> leaf (new_handle txid tableNames mode) (opened (new_handle txid tableNames mode) s) = (Inr u, s1)
        \<and> fst (openTransaction V lc txid tableNames mode None (nested_calls V lc calls leaf) s) = Inr u'
      \<longrightarrow> trace (snd (openTransaction V lc txid tableNames mode None (nested_calls V lc calls leaf) s))
            = trace s1 @ TxCommit txid # map MirrorRefresh (filter isReactiveTable tableNames)
        \<and> commits (TxCommit txid # map MirrorRefresh (filter isReactiveTable tableNames)) = 1
        \<and> (\<forall>T. count_list (TxCommit txid # map MirrorRefresh (filter isReactiveTable tableNames))
                   (MirrorRefresh T)
                 = (if isReactiveTable T then count_list tableNames T else 0)))"
proof (intro conjI impI)
  show "openTransaction V lc txid' tableNames' mode' (Some t) actions s = actions t s"
    by (simp add: openTransaction_def)
next
  assume A: "tableNames \<noteq> []
        \<and> leaf (new_handle txid tableNames mode) (opened (new_handle txid tableNames mode) s) = (Inr u, s1)
        \<and> fst (openTransaction V lc txid tableNames mode None (nested_calls V lc calls leaf) s) = Inr u'"
  let ?b = "nested_calls V lc calls leaf"
  have b: "?b (new_handle txid tableNames mode) (opened (new_handle txid tableNames mode) s) = (Inr u, s1)"
    using A by (simp add: nested_calls_leaf)
  have ne: "tableNames \<noteq> []" using A by simp
  have ret: "fst (openTransaction V lc txid tableNames mode None ?b s) = Inr u'" using A by simp
  have ok: "mode \<noteq> Some VersionChange \<and> txid \<in> set (active s1)"
    using ret ne b by (rule openTransaction_returns)
  then have md: "mode \<noteq> Some VersionChange" and ac: "txid \<in> set (active s1)" by blast+
  from openTransaction_new_run[where V=V and lc=lc and tableNames=tableNames and actions="?b"
      and txid=txid and mode=mode and s=s and u=u and ?s1.0=s1] ne md b ac
  obtain dn rest where R: "filter isReactiveTable tableNames = dn @ rest"
    "trace (snd (openTransaction V lc txid tableNames mode None ?b s))
          = trace s1 @ TxCommit txid # map MirrorRefresh dn"
    "(case fst (openTransaction V lc txid tableNames mode None ?b s) of
            Inr u \<Rightarrow> rest = []
          | Inl e \<Rightarrow> \<exists>T rest'. rest = T # rest' \<and> list_tbl V lc T s1 = Inl e)"
    by blast
  from R(3) A have "rest = []" by simp
  with R(1,2)
  show "trace (snd (openTransaction V lc txid tableNames mode None ?b s))
            = trace s1 @ TxCommit txid # map MirrorRefresh (filter isReactiveTable tableNames)"
    by simp
next
  show "commits (TxCommit txid # map MirrorRefresh (filter isReactiveTable tableNames)) = 1"
    using commits_refreshes[of "filter isReactiveTable tableNames"] by (simp add: commits_def)
next
  show "\<forall>T. count_list (TxCommit txid # map MirrorRefresh (filter isReactiveTable tableNames))
                   (MirrorRefresh T)
                 = (if isReactiveTable T then count_list tableNames T else 0)"
    by (simp add: count_list_map_refresh count_list_filter)
qed

theorem nested_transactions_commit_once_witness:
  "[Image, Observation] \<noteq> []
   \<and> noop_body (new_handle ''t1'' [Image, Observation] None)
        (opened (new_handle ''t1'' [Image, Observation] None) empty_state)
      = (Inr (), opened (new_handle ''t1'' [Image, Observation] None) empty_state)
   \<and> fst (openTransaction accept_all code_unit_compare ''t1'' [Image, Observation] None None
        (nested_calls accept_all code_unit_compare
           [(''t2'', [Image], None), (''t3'', [Observation], Some ReadOnly)] noop_body) empty_state) = Inr ()
   \<and> trace (snd (openTransaction accept_all code_unit_compare ''t1'' [Image, Observation] None None
        (nested_calls accept_all code_unit_compare
           [(''t2'', [Image], None), (''t3'', [Observation], Some ReadOnly)] noop_body) empty_state))
      = [TxOpen (new_handle ''t1'' [Image, Observation] None), TxCommit ''t1'',
         MirrorRefresh Image, MirrorRefresh Observation]"
proof -
  let ?s1 = "opened (new_handle ''t1'' [Image, Observation] None) empty_state"
  let ?b = "nested_calls accept_all code_unit_compare
           [(''t2'', [Image], None), (''t3'', [Observation], Some ReadOnly)] noop_body"
  have h1: "[Image, Observation] \<noteq> []" by simp
  have h2: "noop_body (new_handle ''t1'' [Image, Observation] None) ?s1 = (Inr (), ?s1)"
    by (simp add: noop_body_def)
  have h3: "fst (openTransaction accept_all code_unit_compare ''t1'' [Image, Observation] None None ?b empty_state) = Inr ()"
    by (simp add: openTransaction_def opened_def finished_def commit_def new_handle_def
      noop_body_def empty_state_def isReactiveTable_def
      NO_REACTIVE_STATE_TABLES_def wrangler_refresh_def list_tbl_def store_getAll_def set_mirror_def)
  have f: "filter isReactiveTable [Image, Observation] = [Image, Observation]"
    by (simp add: isReactiveTable_def NO_REACTIVE_STATE_TABLES_def)
  from nested_transactions_commit_once[where tableNames="[Image, Observation]" and leaf=noop_body
      and txid="''t1''" and mode=None and s=empty_state and u="()" and ?s1.0="?s1" and u'="()"
      and V=accept_all and lc=code_unit_compare
      and calls="[(''t2'', [Image], None), (''t3'', [Observation], Some ReadOnly)]"] h1 h2 h3
  have "trace (snd (openTransaction accept_all code_unit_compare ''t1'' [Image, Observation] None None ?b empty_state))
      = trace ?s1 @ TxCommit ''t1'' # map MirrorRefresh (filter isReactiveTable [Image, Observation])"
    by blast
  then have "trace (snd (openTransaction accept_all code_unit_compare ''t1'' [Image, Observation] None None ?b empty_state))
      = [TxOpen (new_handle ''t1'' [Image, Observation] None), TxCommit ''t1'',
         MirrorRefresh Image, MirrorRefresh Observation]"
    unfolding f by (simp add: empty_state_def opened_def)
  with h1 h2 h3 show ?thesis by blast
qed

section \<open>Updating one field\<close>

text \<open>
  Claim C8, as stated, fails: the key is in the store, the validator rejects the mutated
  record, and \<open>update\<close> throws instead of returning \<open>true\<close>.
\<close>

theorem update_rejected_counterexample:
  "raw_get Observation (KStr ''o'') observed_state = Some [(''id'', Str ''o''), (''label'', Str ''x'')]
   \<and> wrangler_update labelled code_unit_compare Observation (KStr ''o'') ''label'' (Num 5) observed_state
       = (Inl (ValidationError ''label''), observed_state)"
  by (simp add: wrangler_update_def raw_get_def store_get_def observed_state_def set_tbl_def
      assign_def labelled_def field_of_def)

text \<open>
  Claim C8, amended. On a key absent from the store \<open>update\<close> returns \<open>false\<close> and
  changes nothing. On a key present in the store it validates the mutated record: when
  the validator or the store rejects it, \<open>update\<close> throws that error and changes nothing;
  otherwise the mutated record is stored and \<open>update\<close> returns \<open>true\<close> with the mirror's
  entry replaced by the validated record, or, when the mirror has no entry for the key,
  with the mirror replaced by the table's listing (an error of the listing is thrown
  instead).
\<close>

theorem update_missing_or_present:
  "(raw_get table k s = None \<longrightarrow> wrangler_update V lc table k property v s = (Inr False, s))
   \<and> (\<forall>item e. raw_get table k s = Some item \<and> V table (assign property v item) = Inl e
         \<longrightarrow> wrangler_update V lc table k property v s = (Inl e, s))
   \<and> (\<forall>item out. raw_get table k s = Some item \<and> V table (assign property v item) = Inr out
          \<and> store_put (assign property v item) (db s table) = Inl DataError
         \<longrightarrow> wrangler_update V lc table k property v s = (Inl DataError, s))
   \<and> (\<forall>item out k' st index. raw_get table k s = Some item
          \<and> V table (assign property v item) = Inr out
          \<and> store_put (assign property v item) (db s table) = Inr (k', st)
          \<and> findIndex (\<lambda>it. strict_eq (field_of it ''id'') (val_of_key k)) (tablesState s table) = Some index
         \<longrightarrow> wrangler_update V lc table k property v s
              = (Inr True, set_mirror table ((tablesState s table)[index := out])
                             (s\<lparr>db := (db s)(table := st)\<rparr>)))
   \<and> (\<forall>item out k' st. raw_get table k s = Some item
          \<and> V table (assign property v item) = Inr out
          \<and> store_put (assign property v item) (db s table) = Inr (k', st)
          \<and> findIndex (\<lambda>it. strict_eq (field_of it ''id'') (val_of_key k)) (tablesState s table) = None
         \<longrightarrow> wrangler_update V lc table k property v s
              = (case list_tbl V lc table (s\<lparr>db := (db s)(table := st)\<rparr>) of
                   Inl e \<Rightarrow> (Inl e, s\<lparr>db := (db s)(table := st)\<rparr>)
                 | Inr xs \<Rightarrow> (Inr True, set_mirror table xs (s\<lparr>db := (db s)(table := st)\<rparr>))))"
  by (auto simp: wrangler_update_def set_tbl_def Let_def split: sum.splits option.splits)

theorem update_missing_or_present_witness:
  "raw_get Observation (KStr ''zz'') observed_state = None
   \<and> wrangler_update labelled code_unit_compare Observation (KStr ''zz'') ''label'' (Str ''y'') observed_state
       = (Inr False, observed_state)
   \<and> raw_get Observation (KStr ''o'') observed_state = Some [(''id'', Str ''o''), (''label'', Str ''x'')]
   \<and> labelled Observation (assign ''label'' (Num 5) [(''id'', Str ''o''), (''label'', Str ''x'')])
       = Inl (ValidationError ''label'')
   \<and> wrangler_update labelled code_unit_compare Observation (KStr ''o'') ''label'' (Num 5) observed_state
       = (Inl (ValidationError ''label''), observed_state)
   \<and> accept_all Observation (assign ''id'' Undefined [(''id'', Str ''o''), (''label'', Str ''x'')])
       = Inr [(''id'', Undefined), (''label'', Str ''x'')]
   \<and> store_put (assign ''id'' Undefined [(''id'', Str ''o''), (''label'', Str ''x'')]) (db observed_state Observation)
       = Inl DataError
   \<and> wrangler_update accept_all code_unit_compare Observation (KStr ''o'') ''id'' Undefined observed_state
       = (Inl DataError, observed_state)
   \<and> labelled Observation (assign ''label'' (Str ''y'') [(''id'', Str ''o''), (''label'', Str ''x'')])
       = Inr [(''id'', Str ''o''), (''label'', Str ''y'')]
   \<and> store_put (assign ''label'' (Str ''y'') [(''id'', Str ''o''), (''label'', Str ''x'')]) (db observed_state Observation)
       = Inr (KStr ''o'', [(KStr ''o'', [(''id'', Str ''o''), (''label'', Str ''y'')])])
   \<and> findIndex (\<lambda>it. strict_eq (field_of it ''id'') (val_of_key (KStr ''o''))) (tablesState observed_state Observation)
       = Some 0
   \<and> wrangler_update labelled code_unit_compare Observation (KStr ''o'') ''label'' (Str ''y'') observed_state
       = (Inr True, set_mirror Observation ((tablesState observed_state Observation)[0 := [(''id'', Str ''o''), (''label'', Str ''y'')]])
            (observed_state\<lparr>db := (db observed_state)(Observation := [(KStr ''o'', [(''id'', Str ''o''), (''label'', Str ''y'')])])\<rparr>))
   \<and> raw_get Image (KStr ''a'') drifted_state = Some [(''id'', Str ''a'')]
   \<and> accept_all Image (assign ''label'' (Str ''y'') [(''id'', Str ''a'')]) = Inr [(''id'', Str ''a''), (''label'', Str ''y'')]
   \<and> store_put (assign ''label'' (Str ''y'') [(''id'', Str ''a'')]) (db drifted_state Image)
       = Inr (KStr ''a'', [(KStr ''a'', [(''id'', Str ''a''), (''label'', Str ''y'')]), (KStr ''b'', [(''id'', Str ''b'')])])
   \<and> findIndex (\<lambda>it. strict_eq (field_of it ''id'') (val_of_key (KStr ''a''))) (tablesState drifted_state Image)
       = None
   \<and> wrangler_update accept_all code_unit_compare Image (KStr ''a'') ''label'' (Str ''y'') drifted_state
       = (Inr True, set_mirror Image [[(''id'', Str ''a''), (''label'', Str ''y'')], [(''id'', Str ''b'')]]
            (drifted_state\<lparr>db := (db drifted_state)(Image :=
               [(KStr ''a'', [(''id'', Str ''a''), (''label'', Str ''y'')]), (KStr ''b'', [(''id'', Str ''b'')])])\<rparr>))"
proof -
  let ?item = "[(''id'', Str ''o''), (''label'', Str ''x'')]"
  let ?out = "[(''id'', Str ''o''), (''label'', Str ''y'')]"
  let ?a' = "[(''id'', Str ''a''), (''label'', Str ''y'')]"
  let ?st = "[(KStr ''a'', ?a'), (KStr ''b'', [(''id'', Str ''b'')])]"
  have h0: "raw_get Observation (KStr ''zz'') observed_state = None"
    by (simp add: raw_get_def store_get_def observed_state_def)
  have h1: "raw_get Observation (KStr ''o'') observed_state = Some ?item"
    by (simp add: raw_get_def store_get_def observed_state_def)
  have v5: "labelled Observation (assign ''label'' (Num 5) ?item) = Inl (ValidationError ''label'')"
    by (simp add: labelled_def assign_def field_of_def)
  have vu: "accept_all Observation (assign ''id'' Undefined ?item) = Inr [(''id'', Undefined), (''label'', Str ''x'')]"
    by (simp add: accept_all_def assign_def)
  have pu: "store_put (assign ''id'' Undefined ?item) (db observed_state Observation) = Inl DataError"
    by (simp add: store_put_def assign_def field_of_def)
  have h2: "labelled Observation (assign ''label'' (Str ''y'') ?item) = Inr ?out"
    by (simp add: labelled_def assign_def field_of_def)
  have h3: "store_put (assign ''label'' (Str ''y'') ?item) (db observed_state Observation)
       = Inr (KStr ''o'', [(KStr ''o'', ?out)])"
    by (simp add: store_put_def assign_def field_of_def observed_state_def)
  have h4: "findIndex (\<lambda>it. strict_eq (field_of it ''id'') (val_of_key (KStr ''o''))) (tablesState observed_state Observation)
       = Some 0"
    by (simp add: observed_state_def field_of_def)
  have d1: "raw_get Image (KStr ''a'') drifted_state = Some [(''id'', Str ''a'')]"
    by (simp add: raw_get_def store_get_def drifted_state_def)
  have d2: "accept_all Image (assign ''label'' (Str ''y'') [(''id'', Str ''a'')]) = Inr ?a'"
    by (simp add: accept_all_def assign_def)
  have d3: "store_put (assign ''label'' (Str ''y'') [(''id'', Str ''a'')]) (db drifted_state Image)
       = Inr (KStr ''a'', ?st)"
    by (simp add: store_put_def assign_def field_of_def drifted_state_def)
  have d4: "findIndex (\<lambda>it. strict_eq (field_of it ''id'') (val_of_key (KStr ''a''))) (tablesState drifted_state Image)
       = None"
    by (simp add: drifted_state_def)
  have d5: "list_tbl accept_all code_unit_compare Image (drifted_state\<lparr>db := (db drifted_state)(Image := ?st)\<rparr>)
       = Inr [?a', [(''id'', Str ''b'')]]"
    by (simp add: list_tbl_def store_getAll_def accept_all_def compare_records_def idComparator.simps
        field_of_def digits_only_def is_digit_def code_unit_compare_def nonpositive_def)
  note T1 = update_missing_or_present[of Observation "KStr ''zz''" observed_state labelled
      code_unit_compare "''label''" "Str ''y''"]
  note T2 = update_missing_or_present[of Observation "KStr ''o''" observed_state labelled
      code_unit_compare "''label''" "Num 5"]
  note T3 = update_missing_or_present[of Observation "KStr ''o''" observed_state accept_all
      code_unit_compare "''id''" Undefined]
  note T4 = update_missing_or_present[of Observation "KStr ''o''" observed_state labelled
      code_unit_compare "''label''" "Str ''y''"]
  note T5 = update_missing_or_present[of Image "KStr ''a''" drifted_state accept_all
      code_unit_compare "''label''" "Str ''y''"]
  have r0: "wrangler_update labelled code_unit_compare Observation (KStr ''zz'') ''label'' (Str ''y'') observed_state
       = (Inr False, observed_state)"
    using T1 h0 by blast
  have r2: "wrangler_update labelled code_unit_compare Observation (KStr ''o'') ''label'' (Num 5) observed_state
       = (Inl (ValidationError ''label''), observed_state)"
    using T2 h1 v5 by blast
  have r3: "wrangler_update accept_all code_unit_compare Observation (KStr ''o'') ''id'' Undefined observed_state
       = (Inl DataError, observed_state)"
    using T3 h1 vu pu by blast
  have r1: "wrangler_update labelled code_unit_compare Observation (KStr ''o'') ''label'' (Str ''y'') observed_state
       = (Inr True, set_mirror Observation ((tablesState observed_state Observation)[0 := ?out])
            (observed_state\<lparr>db := (db observed_state)(Observation := [(KStr ''o'', ?out)])\<rparr>))"
    using T4 h1 h2 h3 h4 by blast
  have "wrangler_update accept_all code_unit_compare Image (KStr ''a'') ''label'' (Str ''y'') drifted_state
       = (case list_tbl accept_all code_unit_compare Image (drifted_state\<lparr>db := (db drifted_state)(Image := ?st)\<rparr>) of
            Inl e \<Rightarrow> (Inl e, drifted_state\<lparr>db := (db drifted_state)(Image := ?st)\<rparr>)
          | Inr xs \<Rightarrow> (Inr True, set_mirror Image xs (drifted_state\<lparr>db := (db drifted_state)(Image := ?st)\<rparr>)))"
    using T5 d1 d2 d3 d4 by blast
  then have r5: "wrangler_update accept_all code_unit_compare Image (KStr ''a'') ''label'' (Str ''y'') drifted_state
       = (Inr True, set_mirror Image [?a', [(''id'', Str ''b'')]]
            (drifted_state\<lparr>db := (db drifted_state)(Image := ?st)\<rparr>))"
    unfolding d5 by simp
  from h0 r0 h1 v5 r2 vu pu r3 h2 h3 h4 r1 d1 d2 d3 d4 r5 show ?thesis by blast
qed

section \<open>Sorting with a comparator that may throw\<close>

lemma insert_by_mset: "insert_by cmp x ys = Inr zs \<Longrightarrow> mset zs = add_mset x (mset ys)"
  by (induction ys arbitrary: zs) (auto split: sum.splits if_splits)

lemma sort_by_mset: "sort_by cmp xs = Inr zs \<Longrightarrow> mset zs = mset xs"
  by (induction xs arbitrary: zs) (auto split: sum.splits dest: insert_by_mset)



text \<open>A comparator that never throws on the elements sorts them as \<open>isort\<close> does.\<close>

lemma insert_by_ins:
  assumes "\<forall>b\<in>set ys. \<exists>c. cmp x b = Inr c"
  shows "insert_by cmp x ys = Inr (ins (le_by cmp) x ys)"
  using assms by (induction ys) (auto simp: le_by_def)

lemma set_ins: "set (ins le x ys) = insert x (set ys)"
  by (induction ys) auto

lemma set_foldr_ins: "set (foldr (ins le) xs base) = set xs \<union> set base"
  by (induction xs) (auto simp: set_ins)

lemma set_isort: "set (isort le xs) = set xs"
  by (simp add: isort_def set_foldr_ins)

lemma isort_Cons: "isort le (x # xs) = ins le x (isort le xs)"
  by (simp add: isort_def)


lemma sort_by_isort:
  assumes "\<forall>a\<in>set xs. \<forall>b\<in>set xs. \<exists>c. cmp a b = Inr c"
  shows "sort_by cmp xs = Inr (isort (le_by cmp) xs)"
  using assms
proof (induction xs)
  case Nil
  then show ?case by (simp add: isort_def)
next
  case (Cons x xs)
  then have IH: "sort_by cmp xs = Inr (isort (le_by cmp) xs)" by simp
  have "\<forall>b\<in>set (isort (le_by cmp) xs). \<exists>c. cmp x b = Inr c"
    using Cons.prems by (simp add: set_isort)
  then have "insert_by cmp x (isort (le_by cmp) xs) = Inr (ins (le_by cmp) x (isort (le_by cmp) xs))"
    by (rule insert_by_ins)
  then show ?case using IH by (simp add: isort_Cons)
qed

text \<open>
  Under a weak order, two insertions of elements that are not tied can be exchanged.
  Hence an element that is tied with none of those after it sorts as if it came last, and
  sorting a list of which a front part is sorted already is sorting the list.
\<close>

lemma weak_order_total: "weak_order_on le S \<Longrightarrow> a \<in> S \<Longrightarrow> b \<in> S \<Longrightarrow> le a b \<or> le b a"
  unfolding weak_order_on_def by blast

lemma weak_order_trans:
  "weak_order_on le S \<Longrightarrow> a \<in> S \<Longrightarrow> b \<in> S \<Longrightarrow> c \<in> S \<Longrightarrow> le a b \<Longrightarrow> le b c \<Longrightarrow> le a c"
  unfolding weak_order_on_def by blast







text \<open>
  The sort is stable: it keeps the elements that are tied with a given one in the order
  they had.
\<close>

lemma filter_ins:
  assumes wo: "weak_order_on le S" and x: "x \<in> S" and a: "a \<in> S" and ys: "set ys \<subseteq> S"
  shows "filter (\<lambda>y. le x y \<and> le y x) (ins le a ys)
      = (if le x a \<and> le a x then a # filter (\<lambda>y. le x y \<and> le y x) ys
         else filter (\<lambda>y. le x y \<and> le y x) ys)"
  using ys
proof (induction ys)
  case Nil
  then show ?case by simp
next
  case (Cons y ys)
  have y: "y \<in> S" using Cons.prems by simp
  have IH: "filter (\<lambda>y. le x y \<and> le y x) (ins le a ys)
      = (if le x a \<and> le a x then a # filter (\<lambda>y. le x y \<and> le y x) ys
         else filter (\<lambda>y. le x y \<and> le y x) ys)"
    using Cons by simp
  show ?case
  proof (cases "le a y")
    case True
    then show ?thesis by simp
  next
    case False
    have "\<not> ((le x a \<and> le a x) \<and> (le x y \<and> le y x))"
      using weak_order_trans[OF wo a x y] False by blast
    then show ?thesis using False IH by auto
  qed
qed

lemma filter_isort:
  assumes wo: "weak_order_on le S" and x: "x \<in> S" and xs: "set xs \<subseteq> S"
  shows "filter (\<lambda>y. le x y \<and> le y x) (isort le xs) = filter (\<lambda>y. le x y \<and> le y x) xs"
  using xs
proof (induction xs)
  case Nil
  then show ?case by (simp add: isort_def)
next
  case (Cons a xs)
  have a: "a \<in> S" and sub: "set (isort le xs) \<subseteq> S" using Cons.prems by (auto simp: set_isort)
  have "filter (\<lambda>y. le x y \<and> le y x) (isort le (a # xs))
      = filter (\<lambda>y. le x y \<and> le y x) (ins le a (isort le xs))"
    by (simp add: isort_Cons)
  also have "\<dots> = (if le x a \<and> le a x then a # filter (\<lambda>y. le x y \<and> le y x) (isort le xs)
         else filter (\<lambda>y. le x y \<and> le y x) (isort le xs))"
    using wo x a sub by (rule filter_ins)
  finally show ?case using Cons by simp
qed

section \<open>The store keeps its records in key order\<close>

lemma str_less_irrefl: "\<not> str_less s s"
  by (induction s) auto

lemma str_less_trans: "str_less a b \<Longrightarrow> str_less b c \<Longrightarrow> str_less a c"
proof (induction a b arbitrary: c rule: str_less.induct)
  case 1
  then show ?case by simp
next
  case (2 y ys)
  then show ?case by (cases c) auto
next
  case (3 x xs)
  then show ?case by simp
next
  case (4 x xs y ys)
  then show ?case by (cases c) (auto split: if_splits)
qed

lemma str_less_total: "a \<noteq> b \<Longrightarrow> str_less a b \<or> str_less b a"
proof (induction a b rule: str_less.induct)
  case (4 x xs y ys)
  show ?case
  proof (cases "x = y")
    case True
    then show ?thesis using 4 by auto
  next
    case False
    then have "(of_char x :: nat) \<noteq> of_char y" by simp
    then have "(of_char x :: nat) < of_char y \<or> (of_char y :: nat) < of_char x" by linarith
    then show ?thesis by auto
  qed
qed auto

lemma key_less_irrefl: "\<not> key_less k k"
  by (cases k) (auto simp: str_less_irrefl)

lemma key_less_trans: "key_less a b \<Longrightarrow> key_less b c \<Longrightarrow> key_less a c"
  by (cases a; cases b; cases c) (auto intro: str_less_trans)

lemma key_less_total: "a \<noteq> b \<Longrightarrow> key_less a b \<or> key_less b a"
  by (cases a; cases b) (auto dest: str_less_total)

lemma keys_put_at: "set (map fst (put_at k v st)) = insert k (set (map fst st))"
proof (induction st)
  case Nil
  then show ?case by simp
next
  case (Cons e st)
  obtain k' v' where e: "e = (k', v')" by (cases e)
  have "set (map fst (put_at k v (e # st)))
      = (if k = k' then insert k (set (map fst st))
         else if key_less k k' then insert k (insert k' (set (map fst st)))
         else insert k' (set (map fst (put_at k v st))))"
    unfolding e by simp
  then show ?case using Cons.IH unfolding e by (simp del: set_map) blast
qed






lemma sorted_keys_distinct: "sorted_wrt key_less ks \<Longrightarrow> distinct ks"
  by (induction ks) (auto simp: key_less_irrefl)

lemma wf_store_distinct: "wf_store st \<Longrightarrow> distinct (map fst st)"
  by (simp add: wf_store_def sorted_keys_distinct)


lemma put_at_split:
  assumes "sorted_wrt key_less (map fst st)" and "k \<notin> set (map fst st)"
  shows "\<exists>us vs. st = us @ vs \<and> put_at k v st = us @ (k, v) # vs
           \<and> (\<forall>e\<in>set us. key_less (fst e) k) \<and> (\<forall>e\<in>set vs. key_less k (fst e))"
  using assms
proof (induction st)
  case Nil
  then show ?case by simp
next
  case (Cons e st)
  obtain k' v' where e: "e = (k', v')" by (cases e)
  have ne: "k \<noteq> k'" "k \<notin> set (map fst st)" using Cons.prems(2) e by auto
  have tail: "\<forall>x\<in>set st. key_less k' (fst x)" "sorted_wrt key_less (map fst st)"
    using Cons.prems(1) e by auto
  show ?case
  proof (cases "key_less k k'")
    case True
    then have "\<forall>x\<in>set (e # st). key_less k (fst x)" using tail(1) e key_less_trans by auto
    moreover have "put_at k v (e # st) = [] @ (k, v) # e # st" using True ne e by simp
    ultimately show ?thesis by (intro exI[of _ "[]"] exI[of _ "e # st"]) simp
  next
    case False
    then have lt: "key_less k' k" using ne(1) key_less_total by blast
    from Cons.IH[OF tail(2) ne(2)] obtain us vs where
      s: "st = us @ vs" "put_at k v st = us @ (k, v) # vs"
         "\<forall>e\<in>set us. key_less (fst e) k" "\<forall>e\<in>set vs. key_less k (fst e)"
      by blast
    have "put_at k v (e # st) = (e # us) @ (k, v) # vs" using False ne e s(2) by simp
    moreover have "e # st = (e # us) @ vs" using s(1) by simp
    moreover have "\<forall>x\<in>set (e # us). key_less (fst x) k" using s(3) lt e by simp
    ultimately show ?thesis using s(4) by blast
  qed
qed


section \<open>The mirror in step with the store\<close>

lemma map_result_Inr_iff:
  "map_result f xs = Inr ys \<longleftrightarrow> list_all2 (\<lambda>x y. f x = Inr y) xs ys"
proof (induction xs arbitrary: ys)
  case Nil
  then show ?case by auto
next
  case (Cons x xs)
  show ?case
  proof (cases "f x")
    case (Inl e)
    then show ?thesis by (auto simp: list_all2_Cons1)
  next
    case (Inr y)
    then show ?thesis using Cons.IH by (cases "map_result f xs") (auto simp: list_all2_Cons1)
  qed
qed

lemma key_id_cases: "key_of a = Some k \<Longrightarrow> a = val_of_key k"
  by (cases a) auto

lemma key_of_val_of_key: "key_of (val_of_key k) = Some k"
  by (cases k) auto

lemma strict_eq_key: "strict_eq a (val_of_key k) = (key_of a = Some k)"
  by (cases a; cases k) auto

lemma strict_eq_keyed: "key_of b = Some k \<Longrightarrow> strict_eq a b = (key_of a = Some k)"
  using key_id_cases[of b k] strict_eq_key[of a k] by simp

lemma compare_primitive_defined:
  "key_of a = Some ka \<Longrightarrow> key_of b = Some kb \<Longrightarrow> \<exists>c. compare_primitive lc a b = Inr c"
  by (cases a; cases b) auto

lemma idComparator_keys:
  assumes "key_of a = Some ka" and "key_of b = Some kb"
  shows "idComparator lc a b = compare_primitive lc a b"
  using assms by (subst idComparator.simps, cases a; cases b) auto

lemma compare_records_ids:
  assumes "key_of (field_of a ''id'') = Some ka"
  shows "compare_records lc a b = idComparator lc (field_of a ''id'') (field_of b ''id'')"
proof -
  have "map_of a ''id'' \<noteq> None"
    using assms by (auto simp: field_of_def split: option.splits)
  then show ?thesis unfolding compare_records_def by (rule idComparator_records)
qed

lemma compare_records_defined:
  assumes "key_of (field_of a ''id'') = Some ka" and "key_of (field_of b ''id'') = Some kb"
  shows "\<exists>c. compare_records lc a b = Inr c"
  using compare_records_ids[OF assms(1), of lc b] idComparator_keys[OF assms, of lc]
    compare_primitive_defined[OF assms, of lc] by simp

lemma le_by_records:
  assumes "key_of (field_of a ''id'') = Some ka"
    and "order_sign lc (field_of a ''id'') (field_of b ''id'') \<noteq> None"
  shows "le_by (compare_records lc) a b = before lc (field_of a ''id'') (field_of b ''id'')"
  using compare_records_ids[OF assms(1), of lc b] assms(2)
  by (auto simp: le_by_def before_def order_sign_def nonpositive_def split: sum.splits if_splits)

lemma findIndex_None_iff: "findIndex P xs = None \<longleftrightarrow> (\<forall>x\<in>set xs. \<not> P x)"
  by (induction xs) (auto split: option.splits)


lemma list_all2_map_eq:
  "list_all2 (\<lambda>x y. g y = h x) xs ys \<Longrightarrow> map g ys = map h xs"
  by (induction rule: list_all2_induct) auto

lemma inj_val_of_key: "val_of_key a = val_of_key b \<Longrightarrow> a = b"
  by (cases a; cases b) auto

lemma list_all2_right: "list_all2 P xs ys \<Longrightarrow> \<forall>y\<in>set ys. \<exists>x\<in>set xs. P x y"
  by (induction rule: list_all2_induct) auto

lemma consistent_on_set:
  "set ids = set ids' \<Longrightarrow> consistent_on lc ids = consistent_on lc ids'"
  unfolding consistent_on_def list_all_iff by simp

lemma consistent_opposite:
  "consistent_on lc ids \<Longrightarrow> a \<in> set ids \<Longrightarrow> b \<in> set ids \<Longrightarrow> opposite lc a b"
  unfolding consistent_on_def list_all_iff by blast

lemma consistent_trans:
  "consistent_on lc ids \<Longrightarrow> a \<in> set ids \<Longrightarrow> b \<in> set ids \<Longrightarrow> c \<in> set ids
     \<Longrightarrow> before lc a b \<Longrightarrow> before lc b c \<Longrightarrow> before lc a c"
  unfolding consistent_on_def list_all_iff by blast

lemma opposite_defined: "opposite lc a b \<Longrightarrow> order_sign lc a b \<noteq> None \<and> order_sign lc b a \<noteq> None"
  by (auto simp: opposite_def split: option.splits)

lemma opposite_total: "opposite lc a b \<Longrightarrow> before lc a b \<or> before lc b a"
  by (auto simp: opposite_def before_def split: option.splits)

lemma opposite_tied: "opposite lc a b \<Longrightarrow> before lc a b \<Longrightarrow> before lc b a \<Longrightarrow> ties lc a b"
  by (auto simp: opposite_def before_def ties_def split: option.splits)

text \<open>
  On records whose identifiers are keys and on whose identifiers the comparator is
  consistent, the comparator is a weak order that never throws.
\<close>

lemma weak_order_records:
  assumes co: "consistent_on lc (map (\<lambda>r. field_of r ''id'') xs)"
    and keys: "\<forall>r\<in>set xs. \<exists>k. key_of (field_of r ''id'') = Some k"
  shows "weak_order_on (le_by (compare_records lc)) (set xs)"
proof -
  let ?i = "\<lambda>r. field_of r ''id''"
  have mem: "\<And>a. a \<in> set xs \<Longrightarrow> ?i a \<in> set (map ?i xs)" by simp
  have le: "le_by (compare_records lc) a b = before lc (?i a) (?i b)"
    if ab: "a \<in> set xs" "b \<in> set xs" for a b
  proof -
    obtain ka where ka: "key_of (?i a) = Some ka" using keys ab(1) by blast
    have "opposite lc (?i a) (?i b)" using co mem[OF ab(1)] mem[OF ab(2)] by (rule consistent_opposite)
    then have "order_sign lc (?i a) (?i b) \<noteq> None" using opposite_defined by blast
    with ka show ?thesis by (rule le_by_records)
  qed
  have tot: "\<forall>a\<in>set xs. \<forall>b\<in>set xs. le_by (compare_records lc) a b \<or> le_by (compare_records lc) b a"
  proof (intro ballI)
    fix a b assume ab: "a \<in> set xs" "b \<in> set xs"
    have "opposite lc (?i a) (?i b)" using co mem[OF ab(1)] mem[OF ab(2)] by (rule consistent_opposite)
    then have "before lc (?i a) (?i b) \<or> before lc (?i b) (?i a)" by (rule opposite_total)
    then show "le_by (compare_records lc) a b \<or> le_by (compare_records lc) b a"
      using le[OF ab] le[OF ab(2,1)] by simp
  qed
  have tr: "\<forall>a\<in>set xs. \<forall>b\<in>set xs. \<forall>c\<in>set xs.
      le_by (compare_records lc) a b \<and> le_by (compare_records lc) b c \<longrightarrow> le_by (compare_records lc) a c"
  proof (intro ballI impI)
    fix a b c assume abc: "a \<in> set xs" "b \<in> set xs" "c \<in> set xs"
      and l: "le_by (compare_records lc) a b \<and> le_by (compare_records lc) b c"
    have "before lc (?i a) (?i b)" "before lc (?i b) (?i c)"
      using l le[OF abc(1,2)] le[OF abc(2,3)] by simp_all
    then have "before lc (?i a) (?i c)"
      using consistent_trans[OF co mem[OF abc(1)] mem[OF abc(2)] mem[OF abc(3)]] by blast
    then show "le_by (compare_records lc) a c" using le[OF abc(1,3)] by simp
  qed
  show ?thesis unfolding weak_order_on_def using tot tr by blast
qed

lemma synced_facts:
  assumes wf: "wf_store (db s T)" and ki: "keeps_id V T" and sy: "synced V lc T s"
  shows "\<exists>outs. map_result (V T) (map snd (db s T)) = Inr outs
      \<and> sort_by (compare_records lc) outs = Inr (tablesState s T)
      \<and> mset (tablesState s T) = mset outs
      \<and> map (\<lambda>r. field_of r ''id'') outs = map (\<lambda>e. val_of_key (fst e)) (db s T)"
proof -
  from sy obtain outs where o: "map_result (V T) (map snd (db s T)) = Inr outs"
      "sort_by (compare_records lc) outs = Inr (tablesState s T)"
    unfolding synced_def list_tbl_def store_getAll_def by (auto split: sum.splits)
  have m: "mset (tablesState s T) = mset outs" using sort_by_mset[OF o(2)] .
  have l2: "list_all2 (\<lambda>x y. V T x = Inr y) (map snd (db s T)) outs"
    using o(1) by (simp add: map_result_Inr_iff)
  have "list_all2 (\<lambda>e y. field_of y ''id'' = val_of_key (fst e)) (db s T) outs"
  proof -
    have a: "list_all2 (\<lambda>e y. V T (snd e) = Inr y) (db s T) outs"
      using l2 by (simp add: list_all2_map1)
    have b: "\<forall>e\<in>set (db s T). key_of (field_of (snd e) ''id'') = Some (fst e)"
      using wf by (simp add: wf_store_def list_all_iff)
    show ?thesis
    proof (rule list.rel_mono_strong[OF a])
      fix e y assume e: "e \<in> set (db s T)" and v: "V T (snd e) = Inr y"
      have "field_of y ''id'' = field_of (snd e) ''id''"
        using ki v unfolding keeps_id_def by blast
      moreover have "field_of (snd e) ''id'' = val_of_key (fst e)"
        using b e key_id_cases by blast
      ultimately show "field_of y ''id'' = val_of_key (fst e)" by simp
    qed
  qed
  then have "map (\<lambda>r. field_of r ''id'') outs = map (\<lambda>e. val_of_key (fst e)) (db s T)"
    by (rule list_all2_map_eq)
  with o m show ?thesis by blast
qed

lemma mirror_ids:
  assumes wf: "wf_store (db s T)" and ki: "keeps_id V T" and sy: "synced V lc T s"
  shows "distinct (map (\<lambda>r. field_of r ''id'') (tablesState s T))"
    and "set (map (\<lambda>r. field_of r ''id'') (tablesState s T)) = val_of_key ` set (map fst (db s T))"
proof -
  let ?i = "\<lambda>r. field_of r ''id''"
  from synced_facts[OF wf ki sy] obtain outs where
    o: "mset (tablesState s T) = mset outs"
       "map ?i outs = map (\<lambda>e. val_of_key (fst e)) (db s T)"
    by blast
  have m: "mset (map ?i (tablesState s T)) = mset (map ?i outs)" using o(1) by simp
  have "distinct (map (\<lambda>e. val_of_key (fst e)) (db s T))"
  proof -
    have "distinct (map val_of_key (map fst (db s T)))"
      using wf_store_distinct[OF wf] by (simp add: distinct_map inj_on_def inj_val_of_key)
    then show ?thesis by (simp add: comp_def)
  qed
  then have "distinct (map ?i outs)" using o(2) by simp
  then show "distinct (map ?i (tablesState s T))"
    using mset_eq_imp_distinct_iff[OF m] by simp
  have "set (map ?i (tablesState s T)) = set (map ?i outs)" using m by (rule mset_eq_setD)
  also have "\<dots> = set (map (\<lambda>e. val_of_key (fst e)) (db s T))" using o(2) by simp
  also have "\<dots> = val_of_key ` set (map fst (db s T))" by auto
  finally show "set (map ?i (tablesState s T)) = val_of_key ` set (map fst (db s T))" .
qed

lemma mirror_keyed:
  assumes wf: "wf_store (db s T)" and ki: "keeps_id V T" and sy: "synced V lc T s"
    and r: "r \<in> set (tablesState s T)"
  shows "\<exists>k. key_of (field_of r ''id'') = Some k"
proof -
  have "field_of r ''id'' \<in> set (map (\<lambda>r. field_of r ''id'') (tablesState s T))" using r by simp
  then obtain k where "field_of r ''id'' = val_of_key k"
    unfolding mirror_ids(2)[OF wf ki sy] by blast
  then show ?thesis using key_of_val_of_key by auto
qed

lemma mirror_find_iff:
  assumes wf: "wf_store (db s T)" and ki: "keeps_id V T" and sy: "synced V lc T s"
  shows "findIndex (\<lambda>it. key_of (field_of it ''id'') = Some k) (tablesState s T) = None
      \<longleftrightarrow> k \<notin> set (map fst (db s T))"
proof -
  have "(\<forall>x\<in>set (tablesState s T). key_of (field_of x ''id'') \<noteq> Some k)
      \<longleftrightarrow> val_of_key k \<notin> set (map (\<lambda>r. field_of r ''id'') (tablesState s T))"
  proof
    assume a: "\<forall>x\<in>set (tablesState s T). key_of (field_of x ''id'') \<noteq> Some k"
    show "val_of_key k \<notin> set (map (\<lambda>r. field_of r ''id'') (tablesState s T))"
    proof
      assume "val_of_key k \<in> set (map (\<lambda>r. field_of r ''id'') (tablesState s T))"
      then obtain x where "x \<in> set (tablesState s T)" "field_of x ''id'' = val_of_key k" by auto
      then show False using a key_of_val_of_key[of k] by auto
    qed
  next
    assume a: "val_of_key k \<notin> set (map (\<lambda>r. field_of r ''id'') (tablesState s T))"
    show "\<forall>x\<in>set (tablesState s T). key_of (field_of x ''id'') \<noteq> Some k"
    proof
      fix x assume x: "x \<in> set (tablesState s T)"
      show "key_of (field_of x ''id'') \<noteq> Some k"
      proof
        assume "key_of (field_of x ''id'') = Some k"
        then have "field_of x ''id'' = val_of_key k" by (rule key_id_cases)
        then show False using a x by force
      qed
    qed
  qed
  also have "\<dots> \<longleftrightarrow> val_of_key k \<notin> val_of_key ` set (map fst (db s T))"
    unfolding mirror_ids(2)[OF wf ki sy] ..
  also have "\<dots> \<longleftrightarrow> k \<notin> set (map fst (db s T))"
    using inj_val_of_key by blast
  finally show ?thesis by (simp add: findIndex_None_iff)
qed


lemma key_before_asym: "key_before a b \<Longrightarrow> \<not> key_before b a"
  using key_less_trans key_less_irrefl
  by (auto simp: key_before_def split: option.splits)

text \<open>
  Inserting a record with a new identifier. The store files it at its place in key order,
  among the validated records \<open>ous\<close> that come before it and \<open>ovs\<close> that come after it;
  the mirror, which is the sorted \<open>ous @ ovs\<close>, gets it at its end. Both are then
  sorted.
\<close>

lemma insert_shape:
  assumes wf: "wf_store (db s T)" and ki: "keeps_id V T" and sy: "synced V lc T s"
    and kn: "k \<notin> set (map fst (db s T))"
    and vo: "V T v = Inr out"
    and vk: "key_of (field_of v ''id'') = Some k"
    and co: "consistent_on lc (field_of v ''id'' # map (\<lambda>r. field_of r ''id'') (tablesState s T))"
    and ar: "sort_by (compare_records lc) (tablesState s T @ [out]) = Inr arranged"
  shows "\<exists>ous ovs. set (ous @ ovs) = set (tablesState s T)
      \<and> weak_order_on (le_by (compare_records lc)) (set (tablesState s T @ [out]))
      \<and> arranged = isort (le_by (compare_records lc)) (isort (le_by (compare_records lc)) (ous @ ovs) @ [out])
      \<and> list_tbl V lc T (s\<lparr>db := (db s)(T := put_at k v (db s T))\<rparr>)
            = Inr (isort (le_by (compare_records lc)) (ous @ out # ovs))
      \<and> (\<forall>o'\<in>set ous. key_before (field_of o' ''id'') (field_of v ''id''))
      \<and> (\<forall>o'\<in>set ovs. key_before (field_of v ''id'') (field_of o' ''id''))"
proof -
  let ?i = "\<lambda>r. field_of r ''id''"
  let ?m = "tablesState s T"
  let ?xs = "?m @ [out]"
  let ?le = "le_by (compare_records lc)"
  let ?P = "\<lambda>x y. V T x = Inr y"
  from synced_facts[OF wf ki sy] obtain outs where
    o: "map_result (V T) (map snd (db s T)) = Inr outs"
       "sort_by (compare_records lc) outs = Inr ?m"
       "mset ?m = mset outs"
    by blast
  have so: "set outs = set ?m" using o(3) by (metis mset_eq_setD)
  have srt: "sorted_wrt key_less (map fst (db s T))" using wf by (simp add: wf_store_def)
  from put_at_split[OF srt kn, of v] obtain us vs where
    sp: "db s T = us @ vs" "put_at k v (db s T) = us @ (k, v) # vs"
        "\<forall>e\<in>set us. key_less (fst e) k" "\<forall>e\<in>set vs. key_less k (fst e)"
    by blast
  have "list_all2 ?P (map snd us @ map snd vs) outs"
    using o(1) sp(1) by (simp add: map_result_Inr_iff)
  then obtain ous ovs where
    ov: "outs = ous @ ovs" "list_all2 ?P (map snd us) ous" "list_all2 ?P (map snd vs) ovs"
    by (auto simp: list_all2_append1)
  have "list_all2 ?P (map snd us @ v # map snd vs) (ous @ out # ovs)"
    using ov(2,3) vo by (simp add: list_all2_appendI)
  then have mr: "map_result (V T) (map snd (put_at k v (db s T))) = Inr (ous @ out # ovs)"
    unfolding sp(2) by (simp add: map_result_Inr_iff)
  have io: "?i out = ?i v" using ki vo unfolding keeps_id_def by blast
  have keyed: "\<forall>r\<in>set ?xs. \<exists>k'. key_of (?i r) = Some k'"
  proof
    fix r assume "r \<in> set ?xs"
    then have "r \<in> set ?m \<or> r = out" by auto
    then show "\<exists>k'. key_of (?i r) = Some k'"
      using mirror_keyed[OF wf ki sy] io vk by auto
  qed
  have "set (map ?i ?xs) = set (?i v # map ?i ?m)" using io by auto
  then have co': "consistent_on lc (map ?i ?xs)"
    using co consistent_on_set by blast
  have wo: "weak_order_on ?le (set ?xs)" using co' keyed by (rule weak_order_records)
  have def: "\<forall>a\<in>set ?xs. \<forall>b\<in>set ?xs. \<exists>c. compare_records lc a b = Inr c"
    using keyed compare_records_defined by blast
  have s_outs: "set outs \<subseteq> set ?xs" using so by auto
  have m_is: "?m = isort ?le outs"
  proof -
    have "sort_by (compare_records lc) outs = Inr (isort ?le outs)"
      using def s_outs by (intro sort_by_isort) blast
    then show ?thesis using o(2) by simp
  qed
  have ar_is: "arranged = isort ?le ?xs"
  proof -
    have "sort_by (compare_records lc) ?xs = Inr (isort ?le ?xs)"
      using def by (intro sort_by_isort) blast
    then show ?thesis using ar by simp
  qed
  have "set (ous @ out # ovs) = set ?xs" using ov(1) so by auto
  then have "sort_by (compare_records lc) (ous @ out # ovs) = Inr (isort ?le (ous @ out # ovs))"
    using def by (intro sort_by_isort) blast
  then have ls: "list_tbl V lc T (s\<lparr>db := (db s)(T := put_at k v (db s T))\<rparr>)
            = Inr (isort ?le (ous @ out # ovs))"
    using mr by (simp add: list_tbl_def store_getAll_def)
  have side: "key_of (?i o') = Some (fst e)"
    if "e \<in> set (db s T)" "V T (snd e) = Inr o'" for e o'
  proof -
    have "key_of (?i (snd e)) = Some (fst e)"
      using wf that(1) by (simp add: wf_store_def list_all_iff)
    moreover have "?i o' = ?i (snd e)" using ki that(2) unfolding keeps_id_def by blast
    ultimately show ?thesis by simp
  qed
  have b1: "\<forall>o'\<in>set ous. key_before (?i o') (?i v)"
  proof
    fix o' assume "o' \<in> set ous"
    with list_all2_right[OF ov(2)] obtain x where "x \<in> set (map snd us)" "V T x = Inr o'" by blast
    then obtain e where e: "e \<in> set us" "V T (snd e) = Inr o'" by auto
    have "key_of (?i o') = Some (fst e)" using side[of e o'] e sp(1) by simp
    moreover have "key_less (fst e) k" using sp(3) e(1) by blast
    ultimately show "key_before (?i o') (?i v)" using vk by (simp add: key_before_def)
  qed
  have b2: "\<forall>o'\<in>set ovs. key_before (?i v) (?i o')"
  proof
    fix o' assume "o' \<in> set ovs"
    with list_all2_right[OF ov(3)] obtain x where "x \<in> set (map snd vs)" "V T x = Inr o'" by blast
    then obtain e where e: "e \<in> set vs" "V T (snd e) = Inr o'" by auto
    have "key_of (?i o') = Some (fst e)" using side[of e o'] e sp(1) by simp
    moreover have "key_less k (fst e)" using sp(4) e(1) by blast
    ultimately show "key_before (?i v) (?i o')" using vk by (simp add: key_before_def)
  qed
  have "set (ous @ ovs) = set ?m" using ov(1) so by simp
  moreover have "arranged = isort ?le (isort ?le (ous @ ovs) @ [out])"
    using ar_is m_is ov(1) by simp
  ultimately show ?thesis using wo ls b1 b2 by blast
qed

text \<open>
  On two records whose identifiers are keys and are ordered in opposite ways, the records
  are tied exactly when the identifiers are.
\<close>

lemma tied_records:
  assumes "key_of (field_of a ''id'') = Some ka" and "key_of (field_of b ''id'') = Some kb"
    and "opposite lc (field_of a ''id'') (field_of b ''id'')"
  shows "(le_by (compare_records lc) a b \<and> le_by (compare_records lc) b a)
      = ties lc (field_of a ''id'') (field_of b ''id'')"
proof -
  have d: "order_sign lc (field_of a ''id'') (field_of b ''id'') \<noteq> None"
      "order_sign lc (field_of b ''id'') (field_of a ''id'') \<noteq> None"
    using opposite_defined[OF assms(3)] by simp_all
  have "le_by (compare_records lc) a b = before lc (field_of a ''id'') (field_of b ''id'')"
    using assms(1) d(1) by (rule le_by_records)
  moreover have "le_by (compare_records lc) b a = before lc (field_of b ''id'') (field_of a ''id'')"
    using assms(2) d(2) by (rule le_by_records)
  moreover have "(before lc (field_of a ''id'') (field_of b ''id'')
        \<and> before lc (field_of b ''id'') (field_of a ''id''))
      = ties lc (field_of a ''id'') (field_of b ''id'')"
    using assms(3) by (auto simp: opposite_def before_def ties_def split: option.splits)
  ultimately show ?thesis by simp
qed


text \<open>
  And they disagree when a record after the new one in the store is tied with it: the
  listing has the new record before that one, the mirror has it behind.
\<close>

lemma insert_out_of_step:
  assumes wf: "wf_store (db s T)" and ki: "keeps_id V T" and sy: "synced V lc T s"
    and kn: "k \<notin> set (map fst (db s T))"
    and vo: "V T v = Inr out"
    and vk: "key_of (field_of v ''id'') = Some k"
    and co: "consistent_on lc (field_of v ''id'' # map (\<lambda>r. field_of r ''id'') (tablesState s T))"
    and r: "r \<in> set (tablesState s T)" "ties lc (field_of v ''id'') (field_of r ''id'')"
      "key_before (field_of v ''id'') (field_of r ''id'')"
    and ar: "sort_by (compare_records lc) (tablesState s T @ [out]) = Inr arranged"
  shows "\<not> synced V lc T (set_mirror T arranged (s\<lparr>db := (db s)(T := put_at k v (db s T))\<rparr>))"
proof
  let ?i = "\<lambda>r. field_of r ''id''"
  let ?m = "tablesState s T"
  let ?xs = "?m @ [out]"
  let ?le = "le_by (compare_records lc)"
  let ?t = "\<lambda>y. ?le out y \<and> ?le y out"
  assume "synced V lc T (set_mirror T arranged (s\<lparr>db := (db s)(T := put_at k v (db s T))\<rparr>))"
  then have ls: "list_tbl V lc T (s\<lparr>db := (db s)(T := put_at k v (db s T))\<rparr>) = Inr arranged"
    by (simp add: synced_def set_mirror_def list_tbl_def)
  from insert_shape[OF wf ki sy kn vo vk co ar] obtain ous ovs where
    sh: "set (ous @ ovs) = set ?m" "weak_order_on ?le (set ?xs)"
        "arranged = isort ?le (isort ?le (ous @ ovs) @ [out])"
        "list_tbl V lc T (s\<lparr>db := (db s)(T := put_at k v (db s T))\<rparr>)
            = Inr (isort ?le (ous @ out # ovs))"
        "\<forall>o'\<in>set ous. key_before (?i o') (?i v)"
    by blast
  have io: "?i out = ?i v" using ki vo unfolding keeps_id_def by blast
  have ko: "key_of (?i out) = Some k" using io vk by simp
  have s_out: "out \<in> set ?xs" by simp
  have s_all: "set (ous @ ovs) \<subseteq> set ?xs" using sh(1) by auto
  have iv: "?i v = val_of_key k" using vk by (rule key_id_cases)
  have "?i v \<notin> set (map ?i ?m)"
    unfolding mirror_ids(2)[OF wf ki sy] iv using kn inj_val_of_key by blast
  then have out_new: "out \<notin> set ?m"
  proof (rule contrapos_nn)
    assume "out \<in> set ?m"
    then have "?i out \<in> set (map ?i ?m)" by simp
    then show "?i v \<in> set (map ?i ?m)" using io by simp
  qed
  have "r \<notin> set ous" using sh(5) key_before_asym[OF r(3)] by blast
  then have r_ovs: "r \<in> set ovs" using r(1) sh(1) by auto
  obtain kr where kr: "key_of (?i r) = Some kr"
    using r(3) by (auto simp: key_before_def split: option.splits)
  have op: "opposite lc (?i out) (?i r)"
    unfolding io using co r(1) by (intro consistent_opposite[of lc "?i v # map ?i ?m"]) auto
  have tr: "?t r" using tied_records[OF ko kr op] r(2) io by simp
  have "?le out out \<or> ?le out out" using sh(2) s_out s_out by (rule weak_order_total)
  then have tout: "?t out" by simp
  have e1: "filter ?t arranged = filter ?t (ous @ ovs) @ [out]"
  proof -
    have a: "set (isort ?le (ous @ ovs) @ [out]) \<subseteq> set ?xs" using s_all by (auto simp: set_isort)
    have "filter ?t arranged = filter ?t (isort ?le (ous @ ovs) @ [out])"
      unfolding sh(3) using sh(2) s_out a by (rule filter_isort)
    also have "\<dots> = filter ?t (isort ?le (ous @ ovs)) @ [out]" using tout by simp
    also have "filter ?t (isort ?le (ous @ ovs)) = filter ?t (ous @ ovs)"
      using sh(2) s_out s_all by (rule filter_isort)
    finally show ?thesis .
  qed
  have e2: "filter ?t arranged = filter ?t ous @ out # filter ?t ovs"
  proof -
    have a: "set (ous @ out # ovs) \<subseteq> set ?xs" using s_all by auto
    have "arranged = isort ?le (ous @ out # ovs)" using ls sh(4) by simp
    then have "filter ?t arranged = filter ?t (isort ?le (ous @ out # ovs))" by simp
    also have "\<dots> = filter ?t (ous @ out # ovs)" using sh(2) s_out a by (rule filter_isort)
    finally show ?thesis using tout by simp
  qed
  have "filter ?t ovs @ [out] = out # filter ?t ovs" using e1 e2 by simp
  moreover have "filter ?t ovs \<noteq> []" using r_ovs tr by (auto simp: filter_empty_conv)
  ultimately have "out \<in> set (filter ?t ovs)"
    by (cases "filter ?t ovs") auto
  then have "out \<in> set ?m" using sh(1) by auto
  then show False using out_new by blast
qed









text \<open>
  The condition on ties is the weakest one: a \<open>set\<close> of a record with a new
  identifier, on which and those of the mirror the comparator is consistent, leaves the
  mirror out of step when an identifier of the mirror is tied with the new one and comes
  after it in key order.
\<close>

lemma set_out_of_step:
  assumes wf: "wf_store (db s T)" and ki: "keeps_id V T" and sy: "synced V lc T s"
    and nf: "findIndex (\<lambda>item. strict_eq (field_of item ''id'') (field_of v ''id'')) (tablesState s T) = None"
    and co: "consistent_on lc (field_of v ''id'' # map (\<lambda>r. field_of r ''id'') (tablesState s T))"
    and r: "r \<in> set (tablesState s T)" "ties lc (field_of v ''id'') (field_of r ''id'')"
      "key_before (field_of v ''id'') (field_of r ''id'')"
    and run: "wrangler_set V lc T v s = (Inr res, s')"
  shows "\<not> synced V lc T s'"
proof -
  obtain out where vo: "V T v = Inr out"
    using run by (cases "V T v") (auto simp: wrangler_set_def set_tbl_def)
  obtain k where vk: "key_of (field_of v ''id'') = Some k"
    using run vo
    by (cases "key_of (field_of v ''id'')") (auto simp: wrangler_set_def set_tbl_def store_put_def)
  define s1 where "s1 = s\<lparr>db := (db s)(T := put_at k v (db s T))\<rparr>"
  have st: "set_tbl V T v s = (Inr k, s1)"
    using vo vk by (simp add: set_tbl_def store_put_def s1_def)
  have m1: "tablesState s1 T = tablesState s T" by (simp add: s1_def)
  have P: "(\<lambda>item. strict_eq (field_of item ''id'') (field_of v ''id''))
      = (\<lambda>it. key_of (field_of it ''id'') = Some k)"
    using strict_eq_keyed[OF vk] by auto
  have None: "findIndex (\<lambda>it. key_of (field_of it ''id'') = Some k) (tablesState s T) = None"
    using nf unfolding P .
  then have kn: "k \<notin> set (map fst (db s T))" using mirror_find_iff[OF wf ki sy] by blast
  obtain arranged where ar: "sort_by (compare_records lc) (tablesState s T @ [out]) = Inr arranged"
    using run st vo None m1 unfolding wrangler_set_def P
    by (cases "sort_by (compare_records lc) (tablesState s T @ [out])") (auto simp: Let_def)
  have s': "s' = set_mirror T arranged s1"
    using run st vo None m1 ar unfolding wrangler_set_def P by (auto simp: Let_def)
  show ?thesis
    unfolding s' s1_def using wf ki sy kn vo vk co r ar by (rule insert_out_of_step)
qed








text \<open>
  Two identifiers of sixteen digits that read as the same double are tied: inserting the
  one that the store files first leaves the mirror out of step, and the operation is not
  among the admissible ones; inserting one that reads as another double is.
\<close>

lemma rounded_out_of_step:
  "synced accept_all code_unit_compare Image rounded_state
   \<and> \<not> admissible code_unit_compare Image (OpSet [(''id'', Str ''9007199254740992'')]) rounded_state
   \<and> fst (run_ops accept_all code_unit_compare Image [OpSet [(''id'', Str ''9007199254740992'')]] rounded_state)
       = Inr ()
   \<and> tablesState (snd (run_ops accept_all code_unit_compare Image
          [OpSet [(''id'', Str ''9007199254740992'')]] rounded_state)) Image
       = [[(''id'', Str ''9007199254740993'')], [(''id'', Str ''9007199254740992'')]]
   \<and> list_tbl accept_all code_unit_compare Image
        (snd (run_ops accept_all code_unit_compare Image
          [OpSet [(''id'', Str ''9007199254740992'')]] rounded_state))
       = Inr [[(''id'', Str ''9007199254740992'')], [(''id'', Str ''9007199254740993'')]]
   \<and> admissible code_unit_compare Image (OpSet [(''id'', Str ''9007199254740994'')]) rounded_state"
  by (simp add: synced_def rounded_state_def wrangler_set_def list_tbl_def set_tbl_def
      store_put_def store_getAll_def set_mirror_def accept_all_def code_unit_compare_def
      field_of_def Let_def compare_records_def idComparator.simps digits_only_def is_digit_def
      inserts_in_order_def consistent_on_def opposite_def order_sign_def before_def ties_def
      key_before_def nonpositive_def Number_rounds to_number_small)






end
